theory Spec2Isabelle
  imports Complex_Main "HOL-Library.Sublist" "HOL-Library.Word" "HOL-Library.Signed_Division"
begin

section \<open>Go values used by main.go\<close>

text \<open>
  A run-time panic of the Go program is a value: every indexing expression and every
  pointer dereference of the source is a branch that may yield one.
\<close>

datatype panic = IndexOutOfRange | NilDereference | DivideByZero

text \<open>Go's \<open>int\<close> on a 64-bit platform: arithmetic wraps, the value is read with \<open>sint\<close>.\<close>

type_synonym goint = "64 word"

text \<open>\<open>xs[i]\<close> on a slice: a panic out of range.\<close>

definition index :: "'a list \<Rightarrow> nat \<Rightarrow> panic + 'a" where
  "index xs i = (if i < length xs then Inr (xs ! i) else Inl IndexOutOfRange)"

subsection \<open>Package strings\<close>

text \<open>
  A Go string is a sequence of bytes. \<open>strings.Index\<close> gives the position of the first
  occurrence of \<open>substr\<close> (\<open>None\<close> for Go's \<open>-1\<close>), \<open>strings.Contains\<close> tests for one.
\<close>

fun Index :: "string \<Rightarrow> string \<Rightarrow> nat option" where
  "Index [] substr = (if substr = [] then Some 0 else None)"
| "Index (c # s) substr =
     (if prefix substr (c # s) then Some 0 else map_option Suc (Index s substr))"

definition Contains :: "string \<Rightarrow> string \<Rightarrow> bool" where
  "Contains s substr = (Index s substr \<noteq> None)"

lemma Index_bound: "Index t u = Some k \<Longrightarrow> k + length u \<le> length t"
proof (induction t arbitrary: k)
  case Nil
  then show ?case by (simp split: if_splits)
next
  case (Cons c t)
  show ?case
  proof (cases "prefix u (c # t)")
    case True
    with Cons.prems prefix_length_le [of u "c # t"] show ?thesis by simp
  next
    case False
    with Cons.prems obtain j where "Index t u = Some j" "k = Suc j" by auto
    with Cons.IH show ?thesis by fastforce
  qed
qed

text \<open>
  \<open>strings.Split(s, sep)\<close>: cut \<open>s\<close> at the first occurrence of \<open>sep\<close> and go on behind
  it; the piece that has no \<open>sep\<close> left is the last element. (With an empty separator Go
  cuts after every UTF-8 sequence; main.go passes only three non-empty constants: the slash
  and the two separators of the pagination marker.)
\<close>

function Split :: "string \<Rightarrow> string \<Rightarrow> string list" where
  "Split s sep =
     (if sep = [] then map (\<lambda>c. [c]) s
      else case Index s sep of
             None \<Rightarrow> [s]
           | Some m \<Rightarrow> take m s # Split (drop (m + length sep) s) sep)"
  by pat_completeness auto
termination
proof (relation "measure (\<lambda>(s, sep). length s)")
  show "wf (measure (\<lambda>(s, sep). length s))" by simp
next
  fix s sep :: string and m :: nat
  assume sep: "sep \<noteq> []" and idx: "Index s sep = Some m"
  from Index_bound [OF idx] sep have "0 < length s" by (cases sep) auto
  moreover from sep have "0 < length sep" by simp
  ultimately show "((drop (m + length sep) s, sep), s, sep) \<in> measure (\<lambda>(s, sep). length s)"
    by simp
qed

declare Split.simps [simp del]

subsection \<open>Package strconv\<close>

text \<open>
  \<open>strconv.Atoi\<close>: an optional sign, then one or more decimal digits and nothing else;
  a value outside the range of \<open>int\<close> is an error. \<open>None\<close> stands for a non-nil error.
\<close>

definition isDigit :: "char \<Rightarrow> bool" where
  "isDigit ch = (of_char CHR ''0'' \<le> (of_char ch :: nat) \<and> (of_char ch :: nat) \<le> of_char CHR ''9'')"

fun digitsValue :: "nat \<Rightarrow> string \<Rightarrow> nat" where
  "digitsValue n [] = n"
| "digitsValue n (ch # s) = digitsValue (n * 10 + ((of_char ch :: nat) - of_char CHR ''0'')) s"

definition Atoi :: "string \<Rightarrow> goint option" where
  "Atoi s =
     (case s of
        [] \<Rightarrow> None
      | c # r \<Rightarrow>
          (let neg = (c = CHR ''-'');
               ds = (if c = CHR ''-'' \<or> c = CHR ''+'' then r else s)
           in if ds = [] \<or> \<not> list_all isDigit ds then None
              else (let n = digitsValue 0 ds
                    in if neg then (if 2 ^ 63 < n then None else Some (- word_of_nat n))
                       else (if 2 ^ 63 \<le> n then None else Some (word_of_nat n)))))"

text \<open>Go's \<open>/\<close> and \<open>%\<close> on \<open>int\<close>: truncation towards zero, a panic on a zero divisor.\<close>

definition go_div :: "goint \<Rightarrow> goint \<Rightarrow> panic + goint" where
  "go_div a b = (if b = 0 then Inl DivideByZero else Inr (word_of_int (sint a sdiv sint b)))"

definition go_mod :: "goint \<Rightarrow> goint \<Rightarrow> panic + goint" where
  "go_mod a b = (if b = 0 then Inl DivideByZero else Inr (word_of_int (sint a smod sint b)))"

subsection \<open>Package golang.org/x/net/html\<close>

datatype NodeType =
  ErrorNode | TextNode | DocumentNode | ElementNode | CommentNode | DoctypeNode | RawNode

record Attribute =
  Namespace :: string
  Key :: string
  Val :: string

text \<open>
  A node with its children in document order: \<open>FirstChild\<close> is the head of the list
  (\<open>nil\<close> when it is empty), \<open>NextSibling\<close> the next element.
\<close>

datatype Node = Node (Type: NodeType) (Data: string) (Attr: "Attribute list") (Children: "Node list")

section \<open>The harvest: locating nodes and extracting records\<close>

definition isClassName :: "Node \<Rightarrow> string \<Rightarrow> bool" where
  "isClassName n className =
     list_ex (\<lambda>a. Key a = ''class'' \<and> Contains (Val a) className) (Attr n)"

definition extractId :: "string \<Rightarrow> panic + string" where
  "extractId href = (let parts = Split href ''/'' in index parts 2)"

text \<open>The two separators of the pagination marker, as the bytes of the source file.\<close>

definition sepTotal :: string where
  "sepTotal = [CHR '' '', CHR 0xD0, CHR 0xB8, CHR 0xD0, CHR 0xB7, CHR '' '']"

definition sepDash :: string where
  "sepDash = [CHR 0xE2, CHR 0x80, CHR 0x94]"

text \<open>
  Lines 218 to 240 of \<open>findPagingHeader\<close>: what the function does with the text
  \<open>pages\<close> of the marker. A failed \<open>Atoi\<close> returns \<open>(0, 0)\<close>; the indexing
  expressions \<open>pageRangeParts[1]\<close> and \<open>pagesParts[1]\<close> are not guarded.
\<close>

definition inspectPaging :: "string \<Rightarrow> panic + (goint \<times> goint)" where
  "inspectPaging pages =
     (let pagesParts = Split pages sepTotal
      in case index pagesParts 0 of
           Inl p \<Rightarrow> Inl p
         | Inr rangePart \<Rightarrow>
             (let pageRangeParts = Split rangePart sepDash
              in case index pageRangeParts 0 of
                   Inl p \<Rightarrow> Inl p
                 | Inr firstStr \<Rightarrow>
                     (case Atoi firstStr of
                        None \<Rightarrow> Inr (0, 0)
                      | Some firstItemNumber \<Rightarrow>
                          (case index pageRangeParts 1 of
                             Inl p \<Rightarrow> Inl p
                           | Inr lastStr \<Rightarrow>
                               (case Atoi lastStr of
                                  None \<Rightarrow> Inr (0, 0)
                                | Some lastItemNumber \<Rightarrow>
                                    (let pageSize = lastItemNumber - firstItemNumber + 1
                                     in case index pagesParts 1 of
                                          Inl p \<Rightarrow> Inl p
                                        | Inr totalMoviesStr \<Rightarrow>
                                            (case Atoi totalMoviesStr of
                                               None \<Rightarrow> Inr (0, 0)
                                             | Some totalMovies \<Rightarrow>
                                                 Inr (totalMovies, pageSize))))))))"

fun findPagingHeader :: "Node \<Rightarrow> panic + (goint \<times> goint)"
  and findPagingHeader_children :: "Node list \<Rightarrow> panic + (goint \<times> goint)" where
  "findPagingHeader (Node t d attrs cs) =
     (if t = ElementNode \<and> d = ''div'' \<and> isClassName (Node t d attrs cs) ''pagesFromTo''
      then (case cs of
              [] \<Rightarrow> Inl NilDereference
            | firstChild # _ \<Rightarrow> inspectPaging (Data firstChild))
      else findPagingHeader_children cs)"
| "findPagingHeader_children [] = Inr (0, 0)"
| "findPagingHeader_children (c # cs) =
     (case findPagingHeader c of
        Inl p \<Rightarrow> Inl p
      | Inr (totalMovies, pageSize) \<Rightarrow>
          if totalMovies \<noteq> 0 then Inr (totalMovies, pageSize)
          else findPagingHeader_children cs)"

text \<open>
  \<open>processMovie\<close> searches an item for the first \<open>href\<close> attribute of an anchor below an
  \<open>info\<close> and a \<open>nameRus\<close> node, in document order; the four nested loops are four
  functions. Each gives \<open>Some (id, name)\<close> where the source assigns
  \<open>movies[extractId(a.Val)] = e.FirstChild.Data\<close> and returns true, and \<open>None\<close> where
  its loop ends without a return.
\<close>

fun processMovie_attrs :: "Node \<Rightarrow> Attribute list \<Rightarrow> panic + (string \<times> string) option" where
  "processMovie_attrs e [] = Inr None"
| "processMovie_attrs e (a # attrs) =
     (if Key a = ''href''
      then (case extractId (Val a) of
              Inl p \<Rightarrow> Inl p
            | Inr movieId \<Rightarrow>
                (case Children e of
                   [] \<Rightarrow> Inl NilDereference
                 | firstChild # _ \<Rightarrow> Inr (Some (movieId, Data firstChild))))
      else processMovie_attrs e attrs)"

fun processMovie_anchors :: "Node list \<Rightarrow> panic + (string \<times> string) option" where
  "processMovie_anchors [] = Inr None"
| "processMovie_anchors (e # es) =
     (if Type e = ElementNode \<and> Data e = ''a''
      then (case processMovie_attrs e (Attr e) of
              Inl p \<Rightarrow> Inl p
            | Inr (Some r) \<Rightarrow> Inr (Some r)
            | Inr None \<Rightarrow> processMovie_anchors es)
      else processMovie_anchors es)"

fun processMovie_names :: "Node list \<Rightarrow> panic + (string \<times> string) option" where
  "processMovie_names [] = Inr None"
| "processMovie_names (d # ds) =
     (if isClassName d ''nameRus''
      then (case processMovie_anchors (Children d) of
              Inl p \<Rightarrow> Inl p
            | Inr (Some r) \<Rightarrow> Inr (Some r)
            | Inr None \<Rightarrow> processMovie_names ds)
      else processMovie_names ds)"

fun processMovie_infos :: "Node list \<Rightarrow> panic + (string \<times> string) option" where
  "processMovie_infos [] = Inr None"
| "processMovie_infos (c # cs) =
     (if isClassName c ''info''
      then (case processMovie_names (Children c) of
              Inl p \<Rightarrow> Inl p
            | Inr (Some r) \<Rightarrow> Inr (Some r)
            | Inr None \<Rightarrow> processMovie_infos cs)
      else processMovie_infos cs)"

text \<open>The global \<open>movies\<close> of the source is passed in and returned.\<close>

type_synonym store = "string \<rightharpoonup> string"

definition processMovie :: "Node \<Rightarrow> store \<Rightarrow> panic + (bool \<times> store)" where
  "processMovie n movies =
     (case processMovie_infos (Children n) of
        Inl p \<Rightarrow> Inl p
      | Inr (Some (movieId, movieName)) \<Rightarrow> Inr (True, movies(movieId \<mapsto> movieName))
      | Inr None \<Rightarrow> Inr (False, movies))"

fun processMovies_loop :: "Node list \<Rightarrow> goint \<Rightarrow> store \<Rightarrow> panic + (goint \<times> store)" where
  "processMovies_loop [] parsedMovies movies = Inr (parsedMovies, movies)"
| "processMovies_loop (c # cs) parsedMovies movies =
     (if isClassName c ''item'' \<or> isClassName c ''item even''
      then (case processMovie c movies of
              Inl p \<Rightarrow> Inl p
            | Inr (ok, movies') \<Rightarrow>
                processMovies_loop cs (if ok then parsedMovies + 1 else parsedMovies) movies')
      else processMovies_loop cs parsedMovies movies)"

definition processMovies :: "Node \<Rightarrow> store \<Rightarrow> panic + (goint \<times> store)" where
  "processMovies n movies = processMovies_loop (Children n) 0 movies"

fun findMovies :: "Node \<Rightarrow> store \<Rightarrow> panic + (goint \<times> store)"
  and findMovies_children :: "Node list \<Rightarrow> store \<Rightarrow> panic + (goint \<times> store)" where
  "findMovies (Node t d attrs cs) movies =
     (if t = ElementNode \<and> d = ''div'' \<and> isClassName (Node t d attrs cs) ''profileFilmsList''
      then processMovies (Node t d attrs cs) movies
      else findMovies_children cs movies)"
| "findMovies_children [] movies = Inr (0, movies)"
| "findMovies_children (c # cs) movies =
     (case findMovies c movies of
        Inl p \<Rightarrow> Inl p
      | Inr (parsedMovies, movies') \<Rightarrow>
          if parsedMovies \<noteq> 0 then Inr (parsedMovies, movies')
          else findMovies_children cs movies')"

section \<open>The harvest: page count and the fetch loops\<close>

text \<open>
  Lines 163 to 166 of \<open>export\<close>: the number of pages from the two results of
  \<open>parseFirstPage\<close>.
\<close>

definition export_pageCount :: "goint \<Rightarrow> goint \<Rightarrow> panic + goint" where
  "export_pageCount totalMovies pageSize =
     (case go_div totalMovies pageSize of
        Inl p \<Rightarrow> Inl p
      | Inr pageCount \<Rightarrow>
          (case go_mod totalMovies pageSize of
             Inl p \<Rightarrow> Inl p
           | Inr r \<Rightarrow> Inr (if r \<noteq> 0 then pageCount + 1 else pageCount)))"

text \<open>
  What one attempt of a fetch loop gets from \<open>makeReq\<close> and \<open>html.Parse\<close>: an error of
  the request, an error of the parser, or the root of the parsed document. The remote
  site is the sequence of the answers to the attempts of one loop, numbered from 0.
\<close>

datatype response = FetchError | ParseError | Document Node

text \<open>
  The state a fetch loop works on: the global \<open>movies\<close> and the calls of \<open>time.Sleep\<close>
  made so far (their durations in seconds, the latest last). The progress messages
  written to standard output are left out.
\<close>

record harvest =
  movies :: store
  sleeps :: "nat list"

text \<open>
  \<open>parseFirstPage\<close>: the loop runs while \<open>totalMovies\<close> is 0. It has no side effect but
  its messages. A loop that never ends is the value \<open>None\<close>.
\<close>

partial_function (option) parseFirstPage_loop ::
  "(nat \<Rightarrow> response) \<Rightarrow> nat \<Rightarrow> (panic + (goint \<times> goint)) option" where
  "parseFirstPage_loop site i =
     (case site i of
        FetchError \<Rightarrow> Some (Inr (0, 0))
      | ParseError \<Rightarrow> Some (Inr (0, 0))
      | Document doc \<Rightarrow>
          (case findPagingHeader doc of
             Inl p \<Rightarrow> Some (Inl p)
           | Inr (totalMovies, pageSize) \<Rightarrow>
               if totalMovies = 0 then parseFirstPage_loop site (i + 1)
               else Some (Inr (totalMovies, pageSize))))"

definition parseFirstPage :: "(nat \<Rightarrow> response) \<Rightarrow> (panic + (goint \<times> goint)) option" where
  "parseFirstPage site = parseFirstPage_loop site 0"

text \<open>
  \<open>parsePage\<close>: the loop runs while \<open>foundMovies\<close> is 0, and every attempt that gets a
  document ends with \<open>time.Sleep(5 * time.Second)\<close>, before the loop condition is
  tested again.
\<close>

partial_function (option) parsePage_loop ::
  "(nat \<Rightarrow> response) \<Rightarrow> nat \<Rightarrow> harvest \<Rightarrow> (panic + (goint \<times> harvest)) option" where
  "parsePage_loop site i st =
     (case site i of
        FetchError \<Rightarrow> Some (Inr (0, st))
      | ParseError \<Rightarrow> Some (Inr (0, st))
      | Document doc \<Rightarrow>
          (case findMovies doc (movies st) of
             Inl p \<Rightarrow> Some (Inl p)
           | Inr (foundMovies, movies') \<Rightarrow>
               if foundMovies = 0
               then parsePage_loop site (i + 1) \<lparr>movies = movies', sleeps = sleeps st @ [5]\<rparr>
               else Some (Inr (foundMovies, \<lparr>movies = movies', sleeps = sleeps st @ [5]\<rparr>))))"

definition parsePage :: "(nat \<Rightarrow> response) \<Rightarrow> harvest \<Rightarrow> (panic + (goint \<times> harvest)) option" where
  "parsePage site st = parsePage_loop site 0 st"

section \<open>The replay\<close>

text \<open>
  What one call of \<open>setMovieWatched\<close> gets from \<open>makeReq\<close> and \<open>json.Unmarshal\<close>: an
  error of the request, an error of the decoder, or the \<open>status\<close> field of the decoded
  answer. The remote service gives the answer to the \<open>k\<close>-th call of a run (from 0), made
  for a movie id.
\<close>

datatype WatchedReply = RequestFailed | BadJson | Status string

text \<open>
  What a run of the replay does, in order: the requests sent, the lines printed (by what
  they report) and the calls of \<open>time.Sleep\<close> (in seconds).
\<close>

datatype event =
    Request goint
  | Println_FetchError
  | Println_JsonError
  | Println_ConvertError string
  | Printf_NotSetWatched string
  | Printf_SetWatched string
  | Sleep nat

definition setMovieWatched ::
  "(nat \<Rightarrow> goint \<Rightarrow> WatchedReply) \<Rightarrow> nat \<Rightarrow> goint \<Rightarrow> event list \<times> bool" where
  "setMovieWatched remote k movieId =
     (case remote k movieId of
        RequestFailed \<Rightarrow> ([Request movieId, Println_FetchError], False)
      | BadJson \<Rightarrow> ([Request movieId, Println_JsonError], False)
      | Status status \<Rightarrow> ([Request movieId], status = ''SUCCESS''))"

text \<open>
  How \<open>importMovies\<close> ends: the loop ran through all records, the function returned at
  a movie id that is no integer, or the run panicked.
\<close>

datatype ending = Finished | Aborted | Panicked panic

text \<open>
  The loop of \<open>importMovies\<close> over the records read by \<open>readMoviesCsv\<close>; \<open>k\<close> counts the
  calls of \<open>setMovieWatched\<close> made before. The result is the events from here on and
  the way the run ends.
\<close>

fun importMovies_loop ::
  "(nat \<Rightarrow> goint \<Rightarrow> WatchedReply) \<Rightarrow> nat \<Rightarrow> string list list \<Rightarrow> event list \<times> ending" where
  "importMovies_loop remote k [] = ([], Finished)"
| "importMovies_loop remote k (line # data) =
     (case index line 0 of
        Inl p \<Rightarrow> ([], Panicked p)
      | Inr movieId \<Rightarrow>
          (case index line 1 of
             Inl p \<Rightarrow> ([], Panicked p)
           | Inr movieName \<Rightarrow>
               (case Atoi movieId of
                  None \<Rightarrow> ([Println_ConvertError movieId], Aborted)
                | Some movieIdInt \<Rightarrow>
                    (case setMovieWatched remote k movieIdInt of
                       (sent, ok) \<Rightarrow>
                         (case importMovies_loop remote (Suc k) data of
                            (later, e) \<Rightarrow>
                              (sent
                               @ [if \<not> ok then Printf_NotSetWatched movieName
                                  else Printf_SetWatched movieName,
                                  Sleep 1]
                               @ later, e))))))"

definition importMovies ::
  "(nat \<Rightarrow> goint \<Rightarrow> WatchedReply) \<Rightarrow> string list list \<Rightarrow> event list \<times> ending" where
  "importMovies remote data = importMovies_loop remote 0 data"

text \<open>
  Two readings of the events of a run: the movie ids of the requests sent, and the
  reports printed per record, both in order.
\<close>

fun requestsOf :: "event list \<Rightarrow> goint list" where
  "requestsOf [] = []"
| "requestsOf (Request movieId # es) = movieId # requestsOf es"
| "requestsOf (_ # es) = requestsOf es"

fun reportsOf :: "event list \<Rightarrow> event list" where
  "reportsOf [] = []"
| "reportsOf (Printf_NotSetWatched movieName # es) = Printf_NotSetWatched movieName # reportsOf es"
| "reportsOf (Printf_SetWatched movieName # es) = Printf_SetWatched movieName # reportsOf es"
| "reportsOf (_ # es) = reportsOf es"

section \<open>The record file\<close>

subsection \<open>Package encoding/csv: the writer\<close>

text \<open>
  The bytes that matter to the format. \<open>createCSVWriter\<close> sets the writer's \<open>Comma\<close> to
  the semicolon and leaves \<open>UseCRLF\<close> false; \<open>readMoviesCsv\<close> sets the reader's
  \<open>Comma\<close> to the semicolon and leaves \<open>Comment\<close>, \<open>FieldsPerRecord\<close>, \<open>LazyQuotes\<close> and
  \<open>TrimLeadingSpace\<close> at their zero values.
\<close>

abbreviation LF :: char where "LF \<equiv> CHR 0x0A"
abbreviation CR :: char where "CR \<equiv> CHR 0x0D"
abbreviation DQ :: char where "DQ \<equiv> CHR 0x22"
abbreviation Comma :: char where "Comma \<equiv> CHR '';''"

text \<open>
  \<open>Writer.fieldNeedsQuotes\<close>: the empty field is written bare, the field \<open>\.\<close> and every
  field with a line feed, a carriage return, a quote or the delimiter is quoted, and so is
  a field whose first rune is white space. The last test, \<open>unicode.IsSpace\<close> of the first
  UTF-8 sequence, is the parameter \<open>isSpaceFirst\<close>: what is proved holds whatever it
  answers.

  \<open>Writer.Write\<close>: the fields of a record with the delimiter between them and a line
  feed behind; a quoted field stands between two quotes with every quote of it doubled
  and every other byte as it is.
\<close>

definition fieldNeedsQuotes :: "(string \<Rightarrow> bool) \<Rightarrow> string \<Rightarrow> bool" where
  "fieldNeedsQuotes isSpaceFirst field =
     (if field = [] then False
      else if field = [CHR 0x5C, CHR ''.''] then True
      else if list_ex (\<lambda>c. c = LF \<or> c = CR \<or> c = DQ \<or> c = Comma) field then True
      else isSpaceFirst field)"

fun writeQuoted :: "string \<Rightarrow> string" where
  "writeQuoted [] = []"
| "writeQuoted (c # field) = (if c = DQ then [DQ, DQ] else [c]) @ writeQuoted field"

definition writeField :: "(string \<Rightarrow> bool) \<Rightarrow> string \<Rightarrow> string" where
  "writeField isSpaceFirst field =
     (if \<not> fieldNeedsQuotes isSpaceFirst field then field
      else [DQ] @ writeQuoted field @ [DQ])"

fun writeFields :: "(string \<Rightarrow> bool) \<Rightarrow> nat \<Rightarrow> string list \<Rightarrow> string" where
  "writeFields isSpaceFirst n [] = []"
| "writeFields isSpaceFirst n (field # record) =
     (if n > 0 then [Comma] else []) @ writeField isSpaceFirst field
     @ writeFields isSpaceFirst (Suc n) record"

definition Write :: "(string \<Rightarrow> bool) \<Rightarrow> string list \<Rightarrow> string" where
  "Write isSpaceFirst record = writeFields isSpaceFirst 0 record @ [LF]"

subsection \<open>dumpFile\<close>

text \<open>
  \<open>dumpFile\<close> creates the file and writes one record \<open>[movieId, movieName]\<close> per key
  of the map, then flushes. \<open>created\<close> says whether \<open>os.Create\<close> succeeds: if not, the
  function prints the error and returns with no file written. \<open>keys\<close> is the order in
  which \<open>range records\<close> visits the keys, which Go leaves unspecified. The result is the
  content of the file. (An error of a write to the created file is not part of the model.)
\<close>

definition dumpFile :: "bool \<Rightarrow> (string \<Rightarrow> bool) \<Rightarrow> string list \<Rightarrow> store \<Rightarrow> string option" where
  "dumpFile created isSpaceFirst keys records =
     (if \<not> created then None
      else Some (concat (map (\<lambda>movieId. Write isSpaceFirst [movieId, the (records movieId)]) keys)))"

subsection \<open>Package encoding/csv: the reader\<close>

text \<open>
  The errors of the reader that can arise with the settings of \<open>readMoviesCsv\<close>.
\<close>

datatype csvParseError = ErrBareQuote | ErrQuote | ErrFieldCount

text \<open>
  \<open>Reader.readLine\<close> on the input that is left: the line up to and with the next line
  feed, the input behind it, and whether the end of the file was hit with nothing read.
  A carriage return before the line feed is removed, and so is one that ends a last line
  without a line feed.
\<close>

definition lengthNL :: "string \<Rightarrow> nat" where
  "lengthNL b = (if b \<noteq> [] \<and> last b = LF then 1 else 0)"

definition readLine :: "string \<Rightarrow> string \<times> string \<times> bool" where
  "readLine inp =
     (let raw = takeWhile (\<lambda>c. c \<noteq> LF) inp
      in case dropWhile (\<lambda>c. c \<noteq> LF) inp of
           [] \<Rightarrow>
             if raw = [] then ([], [], True)
             else (if last raw = CR then butlast raw else raw, [], False)
         | _ # inp' \<Rightarrow>
             (if raw \<noteq> [] \<and> last raw = CR then butlast raw @ [LF] else raw @ [LF], inp', False))"

text \<open>A line and the input behind it are together no longer than the input.\<close>

lemma readLine_cases:
  obtains (eof) "dropWhile (\<lambda>c. c \<noteq> LF) inp = []" "inp = []" "readLine inp = ([], [], True)"
  | (last_line) "dropWhile (\<lambda>c. c \<noteq> LF) inp = []" "inp \<noteq> []"
      "readLine inp = (if last inp = CR then butlast inp else inp, [], False)"
  | (line) raw inp' where "inp = raw @ LF # inp'" "LF \<notin> set raw"
      "readLine inp = (if raw \<noteq> [] \<and> last raw = CR then butlast raw @ [LF] else raw @ [LF], inp', False)"
proof (cases "dropWhile (\<lambda>c. c \<noteq> LF) inp")
  case Nil
  then have tw: "takeWhile (\<lambda>c. c \<noteq> LF) inp = inp"
    by (metis append_Nil2 takeWhile_dropWhile_id)
  show ?thesis
  proof (cases "inp = []")
    case True
    have "readLine inp = ([], [], True)"
      unfolding readLine_def Let_def Nil tw using True by simp
    with Nil True show ?thesis by (rule eof)
  next
    case False
    have "readLine inp = (if last inp = CR then butlast inp else inp, [], False)"
      unfolding readLine_def Let_def Nil tw using False by simp
    with Nil False show ?thesis by (rule last_line)
  qed
next
  case (Cons c inp')
  define raw where "raw = takeWhile (\<lambda>c. c \<noteq> LF) inp"
  have "c = LF" using Cons by (metis (mono_tags, lifting) hd_dropWhile list.sel(1) list.distinct(1))
  with Cons have split: "inp = raw @ LF # inp'"
    unfolding raw_def by (metis takeWhile_dropWhile_id)
  have nolf: "LF \<notin> set raw" unfolding raw_def by (auto dest: set_takeWhileD)
  have "readLine inp
      = (if raw \<noteq> [] \<and> last raw = CR then butlast raw @ [LF] else raw @ [LF], inp', False)"
    unfolding readLine_def Let_def Cons raw_def [symmetric] by simp
  with split nolf show ?thesis by (rule line)
qed

lemma readLine_length:
  assumes "readLine inp = (line, inp', eof)"
  shows "length line + length inp' \<le> length inp"
proof (cases inp rule: readLine_cases)
  case eof
  from assms [symmetric] eof(3) have "line = []" "inp' = []" by (simp_all only: prod.inject)
  then show ?thesis by simp
next
  case last_line
  from assms [symmetric] last_line(3)
  have l: "line = (if last inp = CR then butlast inp else inp)" and i: "inp' = []"
    by (simp_all only: prod.inject)
  have "length line \<le> length inp" unfolding l by simp
  with i show ?thesis by simp
next
  case (line raw rest)
  from assms [symmetric] line(3)
  have l: "line = (if raw \<noteq> [] \<and> last raw = CR then butlast raw @ [LF] else raw @ [LF])"
    and i: "inp' = rest"
    by (simp_all only: prod.inject)
  have "length line \<le> Suc (length raw)" unfolding l by simp
  with i show ?thesis unfolding line(1) by simp
qed

lemma drop_Cons_shorter: "drop n xs = y # ys \<Longrightarrow> length ys < length xs"
proof -
  assume "drop n xs = y # ys"
  then have "length (drop n xs) = Suc (length ys)" by simp
  then show ?thesis by simp
qed

text \<open>
  The loop \<open>parseField\<close> of \<open>Reader.readRecord\<close>, by the two kinds of field. A bare field
  ends at the delimiter or at the end of the line and must hold no quote. A quoted field
  (\<open>parseQuoted\<close>, entered behind the opening quote, \<open>buf\<close> what was read of the field so
  far) runs to the next quote: a second quote behind it is a quote of the field, the
  delimiter or the end of the line ends the field, anything else is \<open>ErrQuote\<close>; a line
  that ends inside the field is taken whole, with its line feed, and the next line is read.
  \<open>dst\<close> holds the fields of the record read so far.
\<close>

function parseField :: "string \<Rightarrow> string \<Rightarrow> string list \<Rightarrow> csvParseError + (string list \<times> string)"
  and parseQuoted :: "string \<Rightarrow> string \<Rightarrow> string \<Rightarrow> string list \<Rightarrow> csvParseError + (string list \<times> string)" where
  "parseField line inp dst =
     (if line = [] \<or> hd line \<noteq> DQ
      then (case Index line [Comma] of
              Some i \<Rightarrow>
                if DQ \<in> set (take i line) then Inl ErrBareQuote
                else parseField (drop (i + 1) line) inp (dst @ [take i line])
            | None \<Rightarrow>
                if DQ \<in> set (take (length line - lengthNL line) line) then Inl ErrBareQuote
                else Inr (dst @ [take (length line - lengthNL line) line], inp))
      else parseQuoted (tl line) inp [] dst)"
| "parseQuoted line inp buf dst =
     (case Index line [DQ] of
        Some i \<Rightarrow>
          (case drop (i + 1) line of
             [] \<Rightarrow> Inr (dst @ [buf @ take i line], inp)
           | rn # line' \<Rightarrow>
               if rn = DQ then parseQuoted line' inp (buf @ take i line @ [DQ]) dst
               else if rn = Comma then parseField line' inp (dst @ [buf @ take i line])
               else if lengthNL (rn # line') = length (rn # line')
               then Inr (dst @ [buf @ take i line], inp)
               else Inl ErrQuote)
      | None \<Rightarrow>
          if line \<noteq> []
          then (case readLine inp of (line', inp', _) \<Rightarrow> parseQuoted line' inp' (buf @ line) dst)
          else Inl ErrQuote)"
  by pat_completeness auto
termination
proof (relation "measure (\<lambda>x. case x of Inl (line, inp, _) \<Rightarrow> length line + length inp
                                         | Inr (line, inp, _) \<Rightarrow> length line + length inp)",
    goal_cases)
  case 1
  show ?case by simp
next
  case (2 line inp dst i)
  from Index_bound [OF 2(2)] show ?case by simp
next
  case (3 line inp dst)
  then show ?case by (cases line) simp_all
next
  case (4 line inp buf dst x y line' y')
  from 4(3,4) have "readLine inp = (x, line', y')" by simp
  from readLine_length [OF this] 4(2) show ?case by (cases line) simp_all
next
  case (5 line inp buf dst i rn line')
  from drop_Cons_shorter [OF 5(2)] show ?case by simp
next
  case (6 line inp buf dst i rn line')
  from drop_Cons_shorter [OF 6(2)] show ?case by simp
qed

declare parseField.simps [simp del] parseQuoted.simps [simp del]

lemma readLine_shorter:
  assumes "readLine inp = (line, inp', False)"
  shows "length inp' < length inp"
proof (cases inp rule: readLine_cases)
  case eof
  from assms [symmetric] eof(3) have "False = True" by (simp only: prod.inject)
  then show ?thesis by simp
next
  case last_line
  from assms [symmetric] last_line(3) have "inp' = []" by (simp only: prod.inject)
  with last_line(2) show ?thesis by simp
next
  case (line raw rest)
  from assms [symmetric] line(3) have "inp' = rest" by (simp only: prod.inject)
  then show ?thesis unfolding line(1) by simp
qed

lemma parse_remaining:
  "parseField line inp dst = Inr (rcd, inp') \<Longrightarrow> length inp' \<le> length inp"
  "parseQuoted line inp buf dst = Inr (rcd, inp') \<Longrightarrow> length inp' \<le> length inp"
proof (induction line inp dst and line inp buf dst arbitrary: rcd inp' and rcd inp'
    rule: parseField_parseQuoted.induct)
  case (1 line inp dst)
  show ?case
  proof (cases "line = [] \<or> hd line \<noteq> DQ")
    case True
    show ?thesis
    proof (cases "Index line [Comma]")
      case None
      with True "1.prems" show ?thesis
        by (subst (asm) parseField.simps) (simp split: if_splits)
    next
      case (Some i)
      with True "1.prems"
      have "(if DQ \<in> set (take i line) then Inl ErrBareQuote
             else parseField (drop (i + 1) line) inp (dst @ [take i line])) = Inr (rcd, inp')"
        by (subst (asm) parseField.simps) simp
      then have nq: "DQ \<notin> set (take i line)"
        and r: "parseField (drop (i + 1) line) inp (dst @ [take i line]) = Inr (rcd, inp')"
        by (simp_all split: if_splits)
      from "1.IH"(1) [OF True Some nq r] show ?thesis .
    qed
  next
    case False
    with "1.prems" have "parseQuoted (tl line) inp [] dst = Inr (rcd, inp')"
      by (subst (asm) parseField.simps) simp
    from "1.IH"(2) [OF False this] show ?thesis .
  qed
next
  case (2 line inp buf dst)
  show ?case
  proof (cases "Index line [DQ]")
    case None
    show ?thesis
    proof (cases "line = []")
      case True
      with None "2.prems" show ?thesis by (subst (asm) parseQuoted.simps) simp
    next
      case False
      obtain line' inp2 eof where rl: "readLine inp = (line', inp2, eof)"
        by (cases "readLine inp") auto
      with None False "2.prems" have "parseQuoted line' inp2 (buf @ line) dst = Inr (rcd, inp')"
        by (subst (asm) parseQuoted.simps) simp
      from "2.IH"(1) [OF None False rl [symmetric] refl this] readLine_length [OF rl]
      show ?thesis by simp
    qed
  next
    case (Some i)
    show ?thesis
    proof (cases "drop (i + 1) line")
      case Nil
      with Some "2.prems" show ?thesis by (subst (asm) parseQuoted.simps) simp
    next
      case (Cons rn line')
      show ?thesis
      proof (cases "rn = DQ")
        case True
        with Some Cons "2.prems"
        have "parseQuoted line' inp (buf @ take i line @ [DQ]) dst = Inr (rcd, inp')"
          by (subst (asm) parseQuoted.simps) simp
        from "2.IH"(2) [OF Some Cons True this] show ?thesis .
      next
        case False
        show ?thesis
        proof (cases "rn = Comma")
          case True
          with False Some Cons "2.prems"
          have "parseField line' inp (dst @ [buf @ take i line]) = Inr (rcd, inp')"
            by (subst (asm) parseQuoted.simps) simp
          from "2.IH"(3) [OF Some Cons False True this] show ?thesis .
        next
          case notComma: False
          with False Some Cons "2.prems" show ?thesis
            by (subst (asm) parseQuoted.simps) (simp split: if_splits)
        qed
      qed
    qed
  qed
qed

text \<open>
  \<open>Reader.readRecord\<close>: skip empty lines, then parse one record; \<open>None\<close> is \<open>io.EOF\<close>.
\<close>

function readRecord :: "string \<Rightarrow> (csvParseError + (string list \<times> string)) option" where
  "readRecord inp =
     (case readLine inp of
        (line, inp', errRead) \<Rightarrow>
          if errRead then None
          else if length line = lengthNL line then readRecord inp'
          else Some (parseField line inp' []))"
  by pat_completeness auto
termination
proof (relation "measure length", goal_cases)
  case 1
  show ?case by simp
next
  case (2 inp line y inp' errRead)
  then have "readLine inp = (line, inp', False)" by simp
  from readLine_shorter [OF this] show ?case by simp
qed

declare readRecord.simps [simp del]

lemma readRecord_shorter:
  "readRecord inp = Some (Inr (rcd, inp')) \<Longrightarrow> length inp' < length inp"
proof (induction inp rule: readRecord.induct)
  case (1 inp)
  obtain line inp2 eof where rl: "readLine inp = (line, inp2, eof)"
    by (cases "readLine inp") auto
  show ?case
  proof (cases eof)
    case True
    with rl "1.prems" show ?thesis by (subst (asm) readRecord.simps) simp
  next
    case False
    with rl have rl': "readLine inp = (line, inp2, False)" by simp
    note short = readLine_shorter [OF rl']
    show ?thesis
    proof (cases "length line = lengthNL line")
      case True
      with rl' "1.prems" have "readRecord inp2 = Some (Inr (rcd, inp'))"
        by (subst (asm) readRecord.simps) simp
      from "1.IH" [OF rl' [symmetric] refl _ True this] short show ?thesis by simp
    next
      case nonempty: False
      with rl' "1.prems" have "parseField line inp2 [] = Inr (rcd, inp')"
        by (subst (asm) readRecord.simps) simp
      from parse_remaining(1) [OF this] short show ?thesis by simp
    qed
  qed
qed

text \<open>
  \<open>Reader.ReadAll\<close>: records until the end of the file. \<open>FieldsPerRecord\<close> starts at 0,
  is set by the first record, and every later record must have as many fields.
\<close>

function ReadAll_loop :: "nat \<Rightarrow> string list list \<Rightarrow> string \<Rightarrow> csvParseError + string list list" where
  "ReadAll_loop FieldsPerRecord records inp =
     (case readRecord inp of
        None \<Rightarrow> Inr records
      | Some (Inl err) \<Rightarrow> Inl err
      | Some (Inr (rcd, inp')) \<Rightarrow>
          if FieldsPerRecord > 0 \<and> length rcd \<noteq> FieldsPerRecord then Inl ErrFieldCount
          else ReadAll_loop (if FieldsPerRecord = 0 then length rcd else FieldsPerRecord)
                 (records @ [rcd]) inp')"
  by pat_completeness auto
termination
proof (relation "measure (\<lambda>(n, records, inp). length inp)", goal_cases)
  case 1
  show ?case by simp
next
  case (2 FieldsPerRecord records inp x2 b x y)
  then have "readRecord inp = Some (Inr (x, y))" by simp
  from readRecord_shorter [OF this] show ?case by simp
qed

declare ReadAll_loop.simps [simp del]

definition ReadAll :: "string \<Rightarrow> csvParseError + string list list" where
  "ReadAll inp = ReadAll_loop 0 [] inp"

subsection \<open>readMoviesCsv\<close>

text \<open>
  \<open>readMoviesCsv\<close> ends the process with \<open>log.Fatal\<close> when the file cannot be opened
  (no content) and when \<open>ReadAll\<close> returns an error.
\<close>

datatype fatal = OpenFailed | ReadFailed csvParseError

definition readMoviesCsv :: "string option \<Rightarrow> fatal + string list list" where
  "readMoviesCsv file =
     (case file of
        None \<Rightarrow> Inl OpenFailed
      | Some content \<Rightarrow>
          (case ReadAll content of Inl err \<Rightarrow> Inl (ReadFailed err) | Inr data \<Rightarrow> Inr data))"

subsection \<open>Notions for the round trip\<close>

text \<open>
  \<open>noCRLF s\<close>: no carriage return of \<open>s\<close> stands immediately before a line feed.
  \<open>firstLine\<close> and \<open>afterLine\<close> are what \<open>readLine\<close> yields on such an input that has a
  line feed; \<open>parseFieldAt\<close> and \<open>parseQuotedAt\<close> are the parser started on the first line
  of an input. \<open>fileOf\<close> is the content written for a sequence of records.
\<close>

fun noCRLF :: "string \<Rightarrow> bool" where
  "noCRLF [] = True"
| "noCRLF [c] = True"
| "noCRLF (c # d # s) = (\<not> (c = CR \<and> d = LF) \<and> noCRLF (d # s))"

definition firstLine :: "string \<Rightarrow> string" where
  "firstLine s = takeWhile (\<lambda>c. c \<noteq> LF) s @ [LF]"

definition afterLine :: "string \<Rightarrow> string" where
  "afterLine s = tl (dropWhile (\<lambda>c. c \<noteq> LF) s)"

definition parseFieldAt :: "string \<Rightarrow> string list \<Rightarrow> csvParseError + (string list \<times> string)" where
  "parseFieldAt s dst = parseField (firstLine s) (afterLine s) dst"

definition parseQuotedAt :: "string \<Rightarrow> string \<Rightarrow> string list \<Rightarrow> csvParseError + (string list \<times> string)" where
  "parseQuotedAt s buf dst = parseQuoted (firstLine s) (afterLine s) buf dst"

definition fileOf :: "(string \<Rightarrow> bool) \<Rightarrow> (string \<times> string) list \<Rightarrow> string" where
  "fileOf isSpaceFirst recs = concat (map (\<lambda>(k, v). Write isSpaceFirst [k, v]) recs)"

section \<open>The record store in the words of the specification\<close>

text \<open>
  The specification's \<open>RecordStore.merge\<close>: insert or overwrite each record of a
  sequence by its id, in order. The source has no function of its own for it (it assigns
  \<open>movies[id] = name\<close> inside \<open>processMovie\<close>); this definition follows the
  specification and is compared with \<open>processMovies\<close> below.
\<close>

fun RecordStore_merge :: "store \<Rightarrow> (string \<times> string) list \<Rightarrow> store" where
  "RecordStore_merge st [] = st"
| "RecordStore_merge st ((movieId, movieName) # records) =
     RecordStore_merge (st(movieId \<mapsto> movieName)) records"

section \<open>What an attempt yields\<close>

text \<open>
  For stating what a fetch loop does with a sequence of answers: the count that
  \<open>findMovies\<close> reports on the document of an attempt, the total that
  \<open>findPagingHeader\<close> reports on it (\<open>None\<close> when the attempt has no document or the
  function panics), and whether the attempt ended in an error of the request or of the
  parser. The count does not depend on the store (lemma \<open>findMovies_count\<close>).
\<close>

definition listingCount :: "response \<Rightarrow> goint option" where
  "listingCount r =
     (case r of
        Document doc \<Rightarrow> (case findMovies doc Map.empty of Inr (n, _) \<Rightarrow> Some n | Inl _ \<Rightarrow> None)
      | _ \<Rightarrow> None)"

definition pagingTotal :: "response \<Rightarrow> goint option" where
  "pagingTotal r =
     (case r of
        Document doc \<Rightarrow> (case findPagingHeader doc of Inr (t, _) \<Rightarrow> Some t | Inl _ \<Rightarrow> None)
      | _ \<Rightarrow> None)"

definition failed :: "response \<Rightarrow> bool" where
  "failed r = (r = FetchError \<or> r = ParseError)"

section \<open>Example inputs\<close>

text \<open>
  Documents shaped like the pages of the site: an item of the listing
  (\<open>div.item > div.info > div.nameRus > a[href]\<close> with the name as its text), the listing,
  a page that holds a listing, a page that holds a pagination marker; and remote sites
  as sequences of answers.
\<close>

definition attr :: "string \<Rightarrow> string \<Rightarrow> Attribute" where
  "attr k v = \<lparr>Namespace = [], Key = k, Val = v\<rparr>"

definition itemNode :: "string \<Rightarrow> string \<Rightarrow> string \<Rightarrow> Node" where
  "itemNode cls href name =
     Node ElementNode ''div'' [attr ''class'' cls]
       [Node ElementNode ''div'' [attr ''class'' ''info'']
          [Node ElementNode ''div'' [attr ''class'' ''nameRus'']
             [Node ElementNode ''a'' [attr ''href'' href] [Node TextNode name [] []]]]]"

definition listingNode :: "Node list \<Rightarrow> Node" where
  "listingNode items = Node ElementNode ''div'' [attr ''class'' ''profileFilmsList''] items"

definition pageNode :: "Node list \<Rightarrow> Node" where
  "pageNode items =
     Node DocumentNode [] []
       [Node ElementNode ''html'' [] [Node ElementNode ''body'' [] [listingNode items]]]"

definition markerNode :: "string \<Rightarrow> Node" where
  "markerNode pages =
     Node DocumentNode [] []
       [Node ElementNode ''div'' [attr ''class'' ''pagesFromTo''] [Node TextNode pages [] []]]"

definition markerText :: string where
  "markerText = ''1'' @ sepDash @ ''50'' @ sepTotal @ ''237''"

definition listingTwice :: Node where
  "listingTwice =
     listingNode [itemNode ''item'' ''/film/535341/'' ''Old'',
                  itemNode ''item even'' ''/film/535341/'' ''New'']"

definition remoteSecondFails :: "nat \<Rightarrow> goint \<Rightarrow> WatchedReply" where
  "remoteSecondFails k movieId = (if k = 1 then Status ''ERROR'' else Status ''SUCCESS'')"

definition noMovies :: store where
  "noMovies = Map.empty"

definition emptyHarvest :: harvest where
  "emptyHarvest = \<lparr>movies = Map.empty, sleeps = []\<rparr>"

definition siteDown :: "nat \<Rightarrow> response" where
  "siteDown i = FetchError"

definition siteBreaks :: "nat \<Rightarrow> response" where
  "siteBreaks i = (if i < 2 then Document (pageNode []) else FetchError)"

definition siteEmpty :: "nat \<Rightarrow> response" where
  "siteEmpty i = Document (pageNode [])"

definition siteThird :: "nat \<Rightarrow> response" where
  "siteThird i =
     (if i < 2 then Document (pageNode [])
      else Document (pageNode [itemNode ''item'' ''/film/535341/'' ''Name'']))"

definition sitePagingThird :: "nat \<Rightarrow> response" where
  "sitePagingThird i =
     (if i < 2 then Document (pageNode []) else Document (markerNode markerText))"

text \<open>
  For the record file: \<open>unicode.IsSpace\<close> on a first byte below 128, a store whose
  names need quoting, and a store with a name that holds a carriage return and a line
  feed in a row.
\<close>

definition asciiSpaceFirst :: "string \<Rightarrow> bool" where
  "asciiSpaceFirst field =
     (field \<noteq> [] \<and> hd field \<in> set [CHR 0x09, LF, CHR 0x0B, CHR 0x0C, CR, CHR '' ''])"

definition storeQuoted :: store where
  "storeQuoted = [''1'' \<mapsto> [CHR ''a'', DQ, Comma, LF, LF, CR, CHR ''b''], ''2'' \<mapsto> '' x'']"

definition storeCRLF :: store where
  "storeCRLF = [''1'' \<mapsto> [CHR ''a'', CR, LF, CHR ''b'']]"

section \<open>Facts about the string functions\<close>

lemma Index_fresh:
  "sep \<noteq> [] \<Longrightarrow> hd sep \<notin> set a \<Longrightarrow> Index (a @ sep @ b) sep = Some (length a)"
proof (induction a)
  case Nil
  then obtain x xs where "sep = x # xs" by (cases sep) auto
  then show ?case by simp
next
  case (Cons c a)
  then obtain x xs where sep: "sep = x # xs" by (cases sep) auto
  with Cons.prems have "x \<noteq> c" by auto
  with sep Cons show ?case by simp
qed

lemma Index_none:
  "sep \<noteq> [] \<Longrightarrow> hd sep \<notin> set a \<Longrightarrow> Index a sep = None"
proof (induction a)
  case Nil
  then show ?case by simp
next
  case (Cons c a)
  then obtain x xs where sep: "sep = x # xs" by (cases sep) auto
  with Cons.prems have "x \<noteq> c" by auto
  with sep Cons show ?case by simp
qed

lemma Split_fresh_cons:
  "sep \<noteq> [] \<Longrightarrow> hd sep \<notin> set a \<Longrightarrow> Split (a @ sep @ b) sep = a # Split b sep"
  by (subst Split.simps) (simp add: Index_fresh)

lemma Split_fresh_last:
  "sep \<noteq> [] \<Longrightarrow> hd sep \<notin> set a \<Longrightarrow> Split a sep = [a]"
  by (subst Split.simps) (simp add: Index_none)

lemma Index_single_None: "Index s [c] = None \<Longrightarrow> c \<notin> set s"
  by (induction s) (auto split: if_splits)

lemma Index_single_Some:
  "Index s [c] = Some m \<Longrightarrow> c \<notin> set (take m s) \<and> m < length s \<and> s ! m = c"
proof (induction s arbitrary: m)
  case Nil
  then show ?case by simp
next
  case (Cons x s)
  show ?case
  proof (cases "x = c")
    case True
    with Cons.prems show ?thesis by simp
  next
    case False
    with Cons.prems obtain j where "Index s [c] = Some j" "m = Suc j" by auto
    with Cons.IH False show ?thesis by auto
  qed
qed

text \<open>Splitting on a one-byte separator gives one piece more than there are separators.\<close>

lemma length_Split_single: "length (Split s [c]) = Suc (count_list s c)"
proof (induction s "[c]" rule: Split.induct)
  case (1 s)
  show ?case
  proof (cases "Index s [c]")
    case None
    then have "count_list s c = 0" using Index_single_None by (simp add: count_list_0_iff)
    with None show ?thesis by (subst Split.simps) simp
  next
    case (Some m)
    from Index_single_Some [OF Some] have m: "c \<notin> set (take m s)" "m < length s" "s ! m = c"
      by auto
    from id_take_nth_drop [OF m(2)] m(3) have "s = take m s @ c # drop (Suc m) s" by simp
    then have "count_list s c = count_list (take m s @ c # drop (Suc m) s) c" by simp
    also have "\<dots> = Suc (count_list (drop (Suc m) s) c)"
      using m(1) by (simp add: count_list_0_iff)
    finally have cnt: "count_list s c = Suc (count_list (drop (Suc m) s) c)" .
    have "length (Split (drop (m + length [c]) s) [c]) = Suc (count_list (drop (m + length [c]) s) c)"
      using "1.hyps" [OF _ Some] by simp
    with Some cnt show ?thesis by (subst Split.simps) simp
  qed
qed

section \<open>The identifier of a link target\<close>

text \<open>
  C2, as the code has it. \<open>extractId\<close> returns the element at index 2 of the pieces
  of the link target cut at every \<open>/\<close>, and the (empty) piece before a leading \<open>/\<close>
  is the piece at index 0. So for a target \<open>a/b/c\<close> or \<open>a/b/c/rest\<close>, where \<open>a\<close>,
  \<open>b\<close> and \<open>c\<close> hold no \<open>/\<close>, the result is \<open>c\<close>: the text between the second
  slash and the third slash (or the end). For \<open>/film/<ID>/\<close> that is \<open><ID>\<close>.
\<close>

theorem extractId_third_piece:
  assumes "CHR ''/'' \<notin> set a" and "CHR ''/'' \<notin> set b" and "CHR ''/'' \<notin> set c"
  shows "extractId (a @ ''/'' @ b @ ''/'' @ c) = Inr c
       \<and> extractId (a @ ''/'' @ b @ ''/'' @ c @ ''/'' @ rest) = Inr c"
proof -
  have sep: "''/'' \<noteq> []" "hd ''/'' = CHR ''/''" by simp_all
  have "Split (a @ ''/'' @ b @ ''/'' @ c) ''/'' = [a, b, c]"
    using assms sep by (simp only: Split_fresh_cons Split_fresh_last not_False_eq_True)
  moreover have "Split (a @ ''/'' @ b @ ''/'' @ c @ ''/'' @ rest) ''/'' = a # b # c # Split rest ''/''"
    using assms sep by (simp only: Split_fresh_cons not_False_eq_True)
  ultimately show ?thesis
    by (simp add: extractId_def index_def)
qed

theorem extractId_third_piece_witness:
  "extractId ''/film/535341'' = Inr ''535341'' \<and> extractId ''/film/535341/'' = Inr ''535341''"
  using extractId_third_piece [of "[]" "''film''" "''535341''" "[]"] by simp

text \<open>
  The link target of the specification's example: the piece at index 2 is \<open>type\<close>,
  not the identifier.
\<close>

theorem extractId_example_counterexample:
  "extractId ''/film/type/1/id/535341/somepath/'' = Inr ''type''
   \<and> extractId ''/film/type/1/id/535341/somepath/'' \<noteq> Inr ''535341''"
proof -
  have "extractId ''/film/type/1/id/535341/somepath/'' = Inr ''type''"
    by code_simp
  then show ?thesis by simp
qed

text \<open>
  C10. \<open>extractId\<close> is partial: it panics with an index out of range exactly on the
  link targets that hold fewer than two \<open>/\<close>, and returns a piece on all others.
\<close>

theorem extractId_partial:
  "(extractId href = Inl IndexOutOfRange) = (count_list href CHR ''/'' < 2)
   \<and> (\<exists>seg. extractId href = Inr seg) = (2 \<le> count_list href CHR ''/'')"
  using length_Split_single [of href "CHR ''/''"]
  by (auto simp add: extractId_def index_def)

theorem extractId_partial_witness:
  "extractId [] = Inl IndexOutOfRange \<and> extractId ''535341'' = Inl IndexOutOfRange
   \<and> extractId ''film/535341'' = Inl IndexOutOfRange"
  using extractId_partial [of "[]"] extractId_partial [of "''535341''"]
    extractId_partial [of "''film/535341''"]
  by simp

section \<open>The pagination marker\<close>

lemma Atoi_chars:
  assumes "Atoi s = Some n"
  shows "\<forall>c \<in> set s. isDigit c \<or> c = CHR ''-'' \<or> c = CHR ''+''"
proof (cases s)
  case Nil
  with assms show ?thesis by (simp add: Atoi_def)
next
  case (Cons c r)
  with assms show ?thesis
    by (auto simp add: Atoi_def Let_def list_all_iff split: if_splits)
qed

text \<open>A text that \<open>Atoi\<close> accepts holds no byte that starts one of the two separators.\<close>

lemma Atoi_no_separator:
  assumes "Atoi s = Some n"
  shows "hd sepTotal \<notin> set s" and "hd sepDash \<notin> set s"
  using Atoi_chars [OF assms] by (auto simp add: sepTotal_def sepDash_def isDigit_def)

lemma inspectPaging_valid:
  assumes f: "Atoi f = Some firstN" and l: "Atoi l = Some lastN" and t: "Atoi t = Some totalN"
  shows "inspectPaging (f @ sepDash @ l @ sepTotal @ t) = Inr (totalN, lastN - firstN + 1)"
proof -
  have ne: "sepTotal \<noteq> []" "sepDash \<noteq> []" by (simp_all add: sepTotal_def sepDash_def)
  have "hd sepTotal \<notin> set sepDash" by (simp add: sepTotal_def sepDash_def)
  with Atoi_no_separator(1) [OF f] Atoi_no_separator(1) [OF l]
  have "hd sepTotal \<notin> set (f @ sepDash @ l)" by simp
  from Split_fresh_cons [OF ne(1) this, of t] Split_fresh_last [OF ne(1) Atoi_no_separator(1) [OF t]]
  have parts: "Split (f @ sepDash @ l @ sepTotal @ t) sepTotal = [f @ sepDash @ l, t]" by simp
  from Split_fresh_cons [OF ne(2) Atoi_no_separator(2) [OF f], of l]
    Split_fresh_last [OF ne(2) Atoi_no_separator(2) [OF l]]
  have range: "Split (f @ sepDash @ l) sepDash = [f, l]" by simp
  show ?thesis
    by (simp add: inspectPaging_def parts range index_def f l t)
qed

lemma sint_pageSize:
  fixes firstN lastN :: goint
  assumes "- (2 ^ 63) \<le> sint lastN - sint firstN + 1" and "sint lastN - sint firstN + 1 < 2 ^ 63"
  shows "sint (lastN - firstN + 1) = sint lastN - sint firstN + 1"
proof -
  have "lastN - firstN + 1 = (word_of_int (sint lastN - sint firstN + 1) :: goint)" by simp
  then have "sint (lastN - firstN + 1) = signed_take_bit 63 (sint lastN - sint firstN + 1)"
    by (simp only: sint_sbintrunc') simp
  with assms show ?thesis by (simp add: signed_take_bit_int_eq_self)
qed

lemma findPagingHeader_marker_div:
  "findPagingHeader
     (Node ElementNode ''div'' [\<lparr>Namespace = [], Key = ''class'', Val = ''pagesFromTo''\<rparr>]
        [Node TextNode pages [] []])
   = inspectPaging pages"
  by (simp add: isClassName_def Contains_def)

text \<open>
  C5, as the code has it. Let the marker, the first child of a \<open>div\<close> of class
  \<open>pagesFromTo\<close>, have the text \<open>f\<close>, the dash, \<open>l\<close>, the separator of the
  total, \<open>t\<close>, where \<open>Atoi\<close> accepts \<open>f\<close>, \<open>l\<close> and \<open>t\<close>: each is a
  decimal integer in the range of Go's \<open>int\<close>, read as \<open>firstN\<close>, \<open>lastN\<close> and
  \<open>totalN\<close>. Then the inspection of the text, and \<open>findPagingHeader\<close> on the
  \<open>div\<close>, return \<open>totalN\<close> and the page size \<open>lastN - firstN + 1\<close> as Go
  computes it on \<open>int\<close>; that is the number \<open>last - first + 1\<close> whenever this
  number is in the range of \<open>int\<close> as well.
\<close>

theorem findPagingHeader_valid_marker:
  assumes n: "n = Node ElementNode ''div'' attrs (marker # siblings)"
    and cls: "isClassName n ''pagesFromTo''"
    and shape: "Data marker = f @ sepDash @ l @ sepTotal @ t"
    and f: "Atoi f = Some firstN" and l: "Atoi l = Some lastN" and t: "Atoi t = Some totalN"
  shows "inspectPaging (Data marker) = Inr (totalN, lastN - firstN + 1)
       \<and> findPagingHeader n = Inr (totalN, lastN - firstN + 1)
       \<and> (- (2 ^ 63) \<le> sint lastN - sint firstN + 1 \<and> sint lastN - sint firstN + 1 < 2 ^ 63
            \<longrightarrow> sint (lastN - firstN + 1) = sint lastN - sint firstN + 1)"
proof -
  have i: "inspectPaging (Data marker) = Inr (totalN, lastN - firstN + 1)"
    unfolding shape by (rule inspectPaging_valid [OF f l t])
  from cls have "findPagingHeader n = inspectPaging (Data marker)"
    unfolding n by simp
  with i show ?thesis by (simp add: sint_pageSize)
qed

theorem findPagingHeader_valid_marker_witness:
  "findPagingHeader
     (Node ElementNode ''div'' [\<lparr>Namespace = [], Key = ''class'', Val = ''pagesFromTo''\<rparr>]
        [Node TextNode (''1'' @ sepDash @ ''50'' @ sepTotal @ ''237'') [] []])
   = Inr (237, 50)"
  using findPagingHeader_valid_marker
    [of "Node ElementNode ''div'' [\<lparr>Namespace = [], Key = ''class'', Val = ''pagesFromTo''\<rparr>]
           [Node TextNode (''1'' @ sepDash @ ''50'' @ sepTotal @ ''237'') [] []]"
        "[\<lparr>Namespace = [], Key = ''class'', Val = ''pagesFromTo''\<rparr>]"
        "Node TextNode (''1'' @ sepDash @ ''50'' @ sepTotal @ ''237'') [] []" "[]"
        "''1''" "''50''" "''237''" 1 50 237]
  by (simp add: isClassName_def Contains_def Atoi_def isDigit_def)

text \<open>
  Outside the range of \<open>int\<close> the claim of the specification fails. On the marker
  from 0 to 9223372036854775807 of 5 the page size wraps around to the least \<open>int\<close>,
  a negative number, where \<open>last - first + 1\<close> is 9223372036854775808; and on the marker
  from 1 to 50 of 9223372036854775808 \<open>Atoi\<close> rejects the total and the result is
  \<open>(0, 0)\<close>.
\<close>

theorem findPagingHeader_int_range_counterexample:
  "findPagingHeader
     (Node ElementNode ''div'' [\<lparr>Namespace = [], Key = ''class'', Val = ''pagesFromTo''\<rparr>]
        [Node TextNode (''0'' @ sepDash @ ''9223372036854775807'' @ sepTotal @ ''5'') [] []])
   = Inr (5, - 9223372036854775808)
   \<and> sint (- 9223372036854775808 :: goint) = - 9223372036854775808
   \<and> findPagingHeader
     (Node ElementNode ''div'' [\<lparr>Namespace = [], Key = ''class'', Val = ''pagesFromTo''\<rparr>]
        [Node TextNode (''1'' @ sepDash @ ''50'' @ sepTotal @ ''9223372036854775808'') [] []])
   = Inr (0, 0)"
proof -
  have "inspectPaging (''0'' @ sepDash @ ''9223372036854775807'' @ sepTotal @ ''5'')
        = Inr (5, 9223372036854775807 - 0 + 1)"
    by (rule inspectPaging_valid) (simp_all add: Atoi_def isDigit_def)
  moreover have "(9223372036854775807 - 0 + 1 :: goint) = - 9223372036854775808" by simp
  ultimately have wrap: "inspectPaging (''0'' @ sepDash @ ''9223372036854775807'' @ sepTotal @ ''5'')
        = Inr (5, - 9223372036854775808)" by simp
  have ne: "sepTotal \<noteq> []" "sepDash \<noteq> []" by (simp_all add: sepTotal_def sepDash_def)
  have "hd sepTotal \<notin> set (''1'' @ sepDash @ ''50'')"
    "hd sepTotal \<notin> set ''9223372036854775808''"
    by (simp_all add: sepTotal_def sepDash_def)
  from Split_fresh_cons [OF ne(1) this(1), of "''9223372036854775808''"]
    Split_fresh_last [OF ne(1) this(2)]
  have parts: "Split (''1'' @ sepDash @ ''50'' @ sepTotal @ ''9223372036854775808'') sepTotal
        = [''1'' @ sepDash @ ''50'', ''9223372036854775808'']" by simp
  have "hd sepDash \<notin> set ''1''" "hd sepDash \<notin> set ''50''" by (simp_all add: sepDash_def)
  from Split_fresh_cons [OF ne(2) this(1), of "''50''"] Split_fresh_last [OF ne(2) this(2)]
  have range: "Split (''1'' @ sepDash @ ''50'') sepDash = [''1'', ''50'']" by simp
  have huge: "inspectPaging (''1'' @ sepDash @ ''50'' @ sepTotal @ ''9223372036854775808'') = Inr (0, 0)"
    using parts range by (simp add: inspectPaging_def index_def Atoi_def isDigit_def)
  have s: "sint (- 9223372036854775808 :: goint) = - 9223372036854775808" by simp
  show ?thesis
    unfolding findPagingHeader_marker_div using wrap huge s by simp
qed

text \<open>
  C3. The marker text that has a range and no total: \<open>strings.Split\<close> on the separator
  of the total gives one piece, and \<open>pagesParts[1]\<close> panics. The function does not
  return the \<open>(0, 0)\<close> that makes the caller try again.
\<close>

theorem findPagingHeader_missing_total_panics:
  "findPagingHeader
     (Node ElementNode ''div'' [\<lparr>Namespace = [], Key = ''class'', Val = ''pagesFromTo''\<rparr>]
        [Node TextNode (''1'' @ sepDash @ ''50'') [] []])
   = Inl IndexOutOfRange"
proof -
  have ne: "sepTotal \<noteq> []" "sepDash \<noteq> []" by (simp_all add: sepTotal_def sepDash_def)
  have "hd sepTotal \<notin> set (''1'' @ sepDash @ ''50'')" by (simp add: sepTotal_def sepDash_def)
  from Split_fresh_last [OF ne(1) this]
  have parts: "Split (''1'' @ sepDash @ ''50'') sepTotal = [''1'' @ sepDash @ ''50'']" .
  have "hd sepDash \<notin> set ''1''" "hd sepDash \<notin> set ''50''" by (simp_all add: sepDash_def)
  from Split_fresh_cons [OF ne(2) this(1), of "''50''"] Split_fresh_last [OF ne(2) this(2)]
  have range: "Split (''1'' @ sepDash @ ''50'') sepDash = [''1'', ''50'']" by simp
  have "inspectPaging (''1'' @ sepDash @ ''50'') = Inl IndexOutOfRange"
    using parts range by (simp add: inspectPaging_def index_def Atoi_def isDigit_def)
  then show ?thesis by (simp add: isClassName_def Contains_def)
qed

section \<open>The number of pages\<close>

lemma sint_word_of_int_small:
  "0 \<le> k \<Longrightarrow> k < 2 ^ 63 \<Longrightarrow> sint (word_of_int k :: goint) = k"
  by (simp add: sint_sbintrunc' signed_take_bit_int_eq_self)

lemma go_div_nonneg:
  "0 \<le> sint a \<Longrightarrow> 0 < sint b \<Longrightarrow> go_div a b = Inr (word_of_int (sint a div sint b))"
  by (auto simp add: go_div_def signed_divide_int_def sgn_if)

lemma go_mod_nonneg:
  "0 \<le> sint a \<Longrightarrow> 0 < sint b \<Longrightarrow> go_mod a b = Inr (word_of_int (sint a mod sint b))"
  by (auto simp add: go_mod_def signed_modulo_int_def sgn_if)

lemma ceiling_div_int:
  fixes a b :: int
  assumes "0 < b"
  shows "\<lceil>real_of_int a / real_of_int b\<rceil> = (if a mod b \<noteq> 0 then a div b + 1 else a div b)"
  using assms by (simp add: ceiling_divide_eq_div zdiv_zminus1_eq_if)

text \<open>
  C6. For a total that is not negative and a page size above 0, \<open>export\<close> computes
  the page count without a panic, and it is the ceiling of the quotient.
\<close>

theorem export_pageCount_ceiling:
  fixes totalMovies pageSize :: goint
  assumes t: "0 \<le> sint totalMovies" and p: "0 < sint pageSize"
  shows "\<exists>pageCount. export_pageCount totalMovies pageSize = Inr pageCount
           \<and> sint pageCount = \<lceil>real_of_int (sint totalMovies) / real_of_int (sint pageSize)\<rceil>"
proof -
  let ?a = "sint totalMovies" and ?b = "sint pageSize"
  have a: "?a < 2 ^ 63" and b: "?b < 2 ^ 63"
    using sint_lt [of totalMovies] sint_lt [of pageSize] by simp_all
  have q: "0 \<le> ?a div ?b" using t p by (simp add: pos_imp_zdiv_nonneg_iff)
  have qa: "?a div ?b \<le> ?a" using t int_div_le_self [of ?a ?b] by (cases "?a = 0") simp_all
  have r0: "0 \<le> ?a mod ?b" using p by simp
  have "?a mod ?b < ?b" using p by simp
  with b have r1: "?a mod ?b < 2 ^ 63" by linarith
  have rz: "((word_of_int (?a mod ?b) :: goint) = 0) = (?a mod ?b = 0)"
    using sint_word_of_int_small [OF r0 r1] by (metis sint_0 word_of_int_0)
  have unfolded: "export_pageCount totalMovies pageSize =
      Inr (if ?a mod ?b \<noteq> 0 then word_of_int (?a div ?b) + 1 else word_of_int (?a div ?b))"
    unfolding export_pageCount_def go_div_nonneg [OF t p] go_mod_nonneg [OF t p]
    by (simp only: sum.case rz)
  show ?thesis
  proof (cases "?a mod ?b = 0")
    case True
    from q qa a have "sint (word_of_int (?a div ?b) :: goint) = ?a div ?b"
      by (intro sint_word_of_int_small) simp_all
    with True show ?thesis
      unfolding unfolded ceiling_div_int [OF p] by simp
  next
    case False
    then have "?b \<noteq> 1" by auto
    with p have b2: "1 < ?b" by simp
    from False have "?a \<noteq> 0" by auto
    with t have a1: "0 < ?a" by simp
    have "?a div ?b < ?a" using a1 b2 by (rule int_div_less_self)
    with a have "?a div ?b + 1 < 2 ^ 63" by linarith
    with q have "sint (word_of_int (?a div ?b + 1) :: goint) = ?a div ?b + 1"
      by (intro sint_word_of_int_small) simp_all
    moreover have "(word_of_int (?a div ?b) :: goint) + 1 = word_of_int (?a div ?b + 1)" by simp
    ultimately show ?thesis using False
      unfolding unfolded ceiling_div_int [OF p] by (simp only: if_True if_False simp_thms) blast
  qed
qed

theorem export_pageCount_ceiling_witness:
  "0 \<le> sint (237 :: goint) \<and> 0 < sint (50 :: goint)
   \<and> (\<exists>pageCount. export_pageCount 237 50 = Inr pageCount \<and> sint pageCount = 5)"
  using export_pageCount_ceiling [of 237 50] by simp

section \<open>The record store\<close>

lemma merge_map_of: "RecordStore_merge ms recs = ms ++ map_of (rev recs)"
proof (induction recs arbitrary: ms)
  case Nil
  then show ?case by simp
next
  case (Cons r recs)
  obtain i nm where r: "r = (i, nm)" by (cases r)
  have step: "ms(i \<mapsto> nm) ++ map_of (rev recs) = ms ++ map_of (rev ((i, nm) # recs))"
    by (rule ext) (simp add: map_add_def map_of_append split: option.splits)
  have "RecordStore_merge ms (r # recs) = RecordStore_merge (ms(i \<mapsto> nm)) recs"
    unfolding r by simp
  also have "\<dots> = ms(i \<mapsto> nm) ++ map_of (rev recs)" by (rule Cons.IH)
  also note step
  finally show ?case unfolding r .
qed

lemma map_add_twice: "(ms ++ m) ++ m = ms ++ m"
  by (rule ext) (simp add: map_add_def split: option.splits)

lemma merge_idem: "RecordStore_merge (RecordStore_merge ms recs) recs = RecordStore_merge ms recs"
  by (simp only: merge_map_of map_add_twice)

lemma merge_append:
  "RecordStore_merge ms (r1 @ r2) = RecordStore_merge (RecordStore_merge ms r1) r2"
proof (induction r1 arbitrary: ms)
  case Nil
  then show ?case by simp
next
  case (Cons r r1)
  obtain i nm where r: "r = (i, nm)" by (cases r)
  show ?case unfolding r by (simp only: append_Cons RecordStore_merge.simps Cons.IH)
qed

lemma processMovie_record:
  assumes "processMovie n ms = Inr (ok, ms')"
  shows "\<exists>recs. length recs = (if ok then 1 else 0) \<and>
           (\<forall>ms2. processMovie n ms2 = Inr (ok, RecordStore_merge ms2 recs))"
proof (cases "processMovie_infos (Children n)")
  case (Inl p)
  with assms show ?thesis by (simp add: processMovie_def)
next
  case (Inr r)
  show ?thesis
  proof (cases r)
    case None
    with Inr assms have "\<not> ok" by (simp add: processMovie_def)
    with None Inr have "length [] = (if ok then 1 else 0) \<and>
           (\<forall>ms2. processMovie n ms2 = Inr (ok, RecordStore_merge ms2 []))"
      by (simp add: processMovie_def)
    then show ?thesis by blast
  next
    case (Some rec)
    obtain i nm where rec: "rec = (i, nm)" by (cases rec)
    with Some Inr assms have "ok" by (simp add: processMovie_def)
    with Some Inr rec have "length [(i, nm)] = (if ok then 1 else 0) \<and>
           (\<forall>ms2. processMovie n ms2 = Inr (ok, RecordStore_merge ms2 [(i, nm)]))"
      by (simp add: processMovie_def)
    then show ?thesis by blast
  qed
qed

lemma processMovies_loop_records:
  "processMovies_loop cs k ms = Inr (k', ms') \<Longrightarrow>
   \<exists>recs. \<forall>k2 ms2. processMovies_loop cs k2 ms2
             = Inr (k2 + of_nat (length recs), RecordStore_merge ms2 recs)"
proof (induction cs arbitrary: k ms)
  case Nil
  have "\<forall>k2 ms2. processMovies_loop [] k2 ms2
          = Inr (k2 + of_nat (length []), RecordStore_merge ms2 [])" by simp
  then show ?case by blast
next
  case (Cons c cs)
  show ?case
  proof (cases "isClassName c ''item'' \<or> isClassName c ''item even''")
    case False
    with Cons.prems have "processMovies_loop cs k ms = Inr (k', ms')" by simp
    from Cons.IH [OF this] obtain recs where
      "\<forall>k2 ms2. processMovies_loop cs k2 ms2
          = Inr (k2 + of_nat (length recs), RecordStore_merge ms2 recs)" by blast
    with False have "\<forall>k2 ms2. processMovies_loop (c # cs) k2 ms2
          = Inr (k2 + of_nat (length recs), RecordStore_merge ms2 recs)" by simp
    then show ?thesis by blast
  next
    case True
    with Cons.prems obtain ok ms1 where
      pm: "processMovie c ms = Inr (ok, ms1)" and
      rest: "processMovies_loop cs (if ok then k + 1 else k) ms1 = Inr (k', ms')"
      by (auto split: sum.splits)
    from processMovie_record [OF pm] obtain r1 where
      r1: "length r1 = (if ok then 1 else 0)"
          "\<forall>ms2. processMovie c ms2 = Inr (ok, RecordStore_merge ms2 r1)"
      by blast
    from Cons.IH [OF rest] obtain recs where
      recs: "\<forall>k2 ms2. processMovies_loop cs k2 ms2
          = Inr (k2 + of_nat (length recs), RecordStore_merge ms2 recs)" by blast
    have "\<forall>k2 ms2. processMovies_loop (c # cs) k2 ms2
          = Inr (k2 + of_nat (length (r1 @ recs)), RecordStore_merge ms2 (r1 @ recs))"
      using True r1 recs by (simp add: merge_append)
    then show ?thesis by blast
  qed
qed

lemma processMovies_records:
  assumes "processMovies n ms = Inr (k, ms')"
  shows "\<exists>recs. \<forall>ms2. processMovies n ms2 = Inr (k, RecordStore_merge ms2 recs)"
proof -
  from assms have l: "processMovies_loop (Children n) 0 ms = Inr (k, ms')"
    by (simp add: processMovies_def)
  from processMovies_loop_records [OF this] obtain recs where
    recs: "\<forall>k2 ms2. processMovies_loop (Children n) k2 ms2
          = Inr (k2 + of_nat (length recs), RecordStore_merge ms2 recs)" by blast
  with l have "k = of_nat (length recs)" by simp
  with recs have "\<forall>ms2. processMovies n ms2 = Inr (k, RecordStore_merge ms2 recs)"
    by (simp add: processMovies_def)
  then show ?thesis by blast
qed

text \<open>
  What \<open>findMovies\<close> does to the store is a merge of records that depend on the
  document only; so does the count.
\<close>

lemma findMovies_records:
  "findMovies n ms = Inr (k, ms') \<Longrightarrow>
     \<exists>recs. \<forall>ms2. findMovies n ms2 = Inr (k, RecordStore_merge ms2 recs)"
  "findMovies_children cs ms = Inr (k, ms') \<Longrightarrow>
     \<exists>recs. \<forall>ms2. findMovies_children cs ms2 = Inr (k, RecordStore_merge ms2 recs)"
proof (induction n ms and cs ms arbitrary: k ms' and k ms' rule: findMovies_findMovies_children.induct)
  case (1 t d attrs cs movies)
  show ?case
  proof (cases "t = ElementNode \<and> d = ''div'' \<and> isClassName (Node t d attrs cs) ''profileFilmsList''")
    case True
    then have td: "t = ElementNode" "d = ''div''"
      and cl: "isClassName (Node ElementNode ''div'' attrs cs) ''profileFilmsList''" by auto
    from "1.prems" cl have "processMovies (Node ElementNode ''div'' attrs cs) movies = Inr (k, ms')"
      unfolding td by simp
    from processMovies_records [OF this] obtain recs where
      "\<forall>ms2. processMovies (Node ElementNode ''div'' attrs cs) ms2 = Inr (k, RecordStore_merge ms2 recs)"
      by blast
    with cl have "\<forall>ms2. findMovies (Node t d attrs cs) ms2
          = Inr (k, RecordStore_merge ms2 recs)"
      unfolding td by simp
    then show ?thesis by blast
  next
    case False
    with "1.prems" have "findMovies_children cs movies = Inr (k, ms')" by auto
    from "1.IH" [OF False this] obtain recs where
      "\<forall>ms2. findMovies_children cs ms2 = Inr (k, RecordStore_merge ms2 recs)"
      by blast
    with False have "\<forall>ms2. findMovies (Node t d attrs cs) ms2
          = Inr (k, RecordStore_merge ms2 recs)" by auto
    then show ?thesis by blast
  qed
next
  case (2 movies)
  then have "\<forall>ms2. findMovies_children [] ms2 = Inr (k, RecordStore_merge ms2 [])"
    by simp
  then show ?case by blast
next
  case (3 c cs movies)
  from "3.prems" obtain k1 ms1 where c: "findMovies c movies = Inr (k1, ms1)"
    by (auto split: sum.splits)
  from "3.IH"(1) [OF c] obtain r1 where
    r1: "\<forall>ms2. findMovies c ms2 = Inr (k1, RecordStore_merge ms2 r1)" by blast
  show ?case
  proof (cases "k1 = 0")
    case False
    with "3.prems" c have "k = k1" by simp
    with r1 False have "\<forall>ms2. findMovies_children (c # cs) ms2
          = Inr (k, RecordStore_merge ms2 r1)" by simp
    then show ?thesis by blast
  next
    case True
    with "3.prems" c have rest: "findMovies_children cs ms1 = Inr (k, ms')" by simp
    from "3.IH"(2) [OF c _ _ rest] True obtain r2 where
      r2: "\<forall>ms2. findMovies_children cs ms2 = Inr (k, RecordStore_merge ms2 r2)"
      by auto
    from r1 r2 True have "\<forall>ms2. findMovies_children (c # cs) ms2
          = Inr (k, RecordStore_merge ms2 (r1 @ r2))" by (simp add: merge_append)
    then show ?thesis by blast
  qed
qed

lemma findMovies_idem:
  assumes "findMovies n ms = Inr (k, ms')"
  shows "findMovies n ms' = Inr (k, ms')"
proof -
  from findMovies_records(1) [OF assms] obtain recs where
    recs: "\<forall>ms2. findMovies n ms2 = Inr (k, RecordStore_merge ms2 recs)" by blast
  with assms have "ms' = RecordStore_merge ms recs" by simp
  with recs show ?thesis by (simp add: merge_idem)
qed

lemma findMovies_count:
  assumes "findMovies n ms0 = Inr (k, ms0')"
  shows "\<exists>ms'. findMovies n ms = Inr (k, ms')"
  using findMovies_records(1) [OF assms] by blast

lemma extractId_film: "CHR ''/'' \<notin> set i \<Longrightarrow> extractId (''/film/'' @ i @ ''/'') = Inr i"
proof -
  assume i: "CHR ''/'' \<notin> set i"
  have sep: "''/'' \<noteq> []" "hd ''/'' \<notin> set []" "hd ''/'' \<notin> set ''film''" by simp_all
  from i have "hd ''/'' \<notin> set i" by simp
  from Split_fresh_cons [OF sep(1) this, of "[]"] 
  have "Split (i @ ''/'') ''/'' = i # Split [] ''/''" by simp
  with Split_fresh_cons [OF sep(1) sep(3), of "i @ ''/''"] Split_fresh_cons [OF sep(1) sep(2), of "''film/'' @ i @ ''/''"]
  have "Split (''/film/'' @ i @ ''/'') ''/'' = [] # ''film'' # i # Split [] ''/''" by simp
  then show ?thesis by (simp add: extractId_def index_def)
qed

lemma processMovies_listingTwice:
  "processMovies listingTwice ms = Inr (2, ms(''535341'' \<mapsto> ''New''))"
  using extractId_film [of "''535341''"]
  by (simp add: listingTwice_def listingNode_def itemNode_def attr_def processMovies_def
      processMovie_def isClassName_def Contains_def)

lemma processMovie_item_example:
  "processMovie (itemNode ''item'' ''/film/535341/'' ''New'') ms
   = Inr (True, ms(''535341'' \<mapsto> ''New''))"
  using extractId_film [of "''535341''"]
  by (simp add: itemNode_def attr_def processMovie_def isClassName_def Contains_def)

text \<open>
  C7. Merging is idempotent and the last write wins. Running \<open>processMovies\<close> on a
  listing merges a sequence of records that depends on the listing only; running it, or
  \<open>findMovies\<close> on a whole page, a second time on the store it produced returns the
  same count and the same store, so the same size and the same content. The
  specification's merge is idempotent as well. An item that yields a record writes its
  name under its id whatever the store held for that id before.
\<close>

theorem store_merge_idempotent_last_write_wins:
  "(processMovies n ms = Inr (k, ms') \<longrightarrow>
      processMovies n ms' = Inr (k, ms')
      \<and> (\<exists>records. \<forall>ms2. processMovies n ms2 = Inr (k, RecordStore_merge ms2 records)))
   \<and> (findMovies doc ms = Inr (k, ms') \<longrightarrow> findMovies doc ms' = Inr (k, ms'))
   \<and> RecordStore_merge (RecordStore_merge ms records) records = RecordStore_merge ms records
   \<and> (processMovie item ms = Inr (True, ms') \<longrightarrow>
        (\<exists>movieId movieName. ms' = ms(movieId \<mapsto> movieName)
           \<and> (\<forall>ms2. processMovie item ms2 = Inr (True, ms2(movieId \<mapsto> movieName)))))"
proof (intro conjI impI)
  assume a: "processMovies n ms = Inr (k, ms')"
  from processMovies_records [OF a]
  show r: "\<exists>records. \<forall>ms2. processMovies n ms2 = Inr (k, RecordStore_merge ms2 records)" .
  then obtain records where
    recs: "\<forall>ms2. processMovies n ms2 = Inr (k, RecordStore_merge ms2 records)" by blast
  with a have "ms' = RecordStore_merge ms records" by simp
  with recs show "processMovies n ms' = Inr (k, ms')" by (simp only: merge_idem)
next
  assume "findMovies doc ms = Inr (k, ms')"
  then show "findMovies doc ms' = Inr (k, ms')" by (rule findMovies_idem)
next
  show "RecordStore_merge (RecordStore_merge ms records) records = RecordStore_merge ms records"
    by (rule merge_idem)
next
  assume a: "processMovie item ms = Inr (True, ms')"
  then obtain movieId movieName where
    "processMovie_infos (Children item) = Inr (Some (movieId, movieName))"
    by (auto simp add: processMovie_def split: sum.splits option.splits)
  with a have "ms' = ms(movieId \<mapsto> movieName)
           \<and> (\<forall>ms2. processMovie item ms2 = Inr (True, ms2(movieId \<mapsto> movieName)))"
    by (simp add: processMovie_def)
  then show "\<exists>movieId movieName. ms' = ms(movieId \<mapsto> movieName)
           \<and> (\<forall>ms2. processMovie item ms2 = Inr (True, ms2(movieId \<mapsto> movieName)))" by blast
qed

theorem store_merge_idempotent_last_write_wins_witness:
  "processMovies listingTwice noMovies = Inr (2, noMovies(''535341'' \<mapsto> ''New''))
   \<and> processMovies listingTwice (noMovies(''535341'' \<mapsto> ''New''))
       = Inr (2, noMovies(''535341'' \<mapsto> ''New''))
   \<and> processMovie (itemNode ''item'' ''/film/535341/'' ''New'') (noMovies(''535341'' \<mapsto> ''Old''))
       = Inr (True, noMovies(''535341'' \<mapsto> ''New''))"
  using store_merge_idempotent_last_write_wins
    [of listingTwice noMovies 2 "noMovies(''535341'' \<mapsto> ''New'')"
        "pageNode []" "[]"
        "itemNode ''item'' ''/film/535341/'' ''New''"]
  by (simp add: processMovies_listingTwice processMovie_item_example)

section \<open>The fetch loops\<close>

lemma parsePage_loop_failed:
  "failed (site i) \<Longrightarrow> parsePage_loop site i st = Some (Inr (0, st))"
  by (subst parsePage_loop.simps) (auto simp add: failed_def)

lemma listingCount_findMovies:
  assumes "listingCount r = Some n"
  shows "\<exists>doc ms'. r = Document doc \<and> findMovies doc ms = Inr (n, ms')"
proof -
  from assms obtain doc ms0 where
    doc: "r = Document doc" and f: "findMovies doc Map.empty = Inr (n, ms0)"
    by (auto simp add: listingCount_def split: response.splits sum.splits)
  from findMovies_count [OF f] doc show ?thesis by blast
qed

lemma parsePage_loop_zero:
  assumes "listingCount (site i) = Some 0"
  shows "\<exists>ms'. parsePage_loop site i st
           = parsePage_loop site (Suc i) \<lparr>movies = ms', sleeps = sleeps st @ [5]\<rparr>"
proof -
  from listingCount_findMovies [OF assms, of "movies st"] obtain doc ms' where
    "site i = Document doc" "findMovies doc (movies st) = Inr (0, ms')" by blast
  then have "parsePage_loop site i st
           = parsePage_loop site (Suc i) \<lparr>movies = ms', sleeps = sleeps st @ [5]\<rparr>"
    by (subst parsePage_loop.simps) simp
  then show ?thesis by blast
qed

lemma parsePage_loop_found:
  assumes "listingCount (site i) = Some n" and "n \<noteq> 0"
  shows "\<exists>ms'. parsePage_loop site i st
           = Some (Inr (n, \<lparr>movies = ms', sleeps = sleeps st @ [5]\<rparr>))"
proof -
  from listingCount_findMovies [OF assms(1), of "movies st"] obtain doc ms' where
    "site i = Document doc" "findMovies doc (movies st) = Inr (n, ms')" by blast
  with assms(2) have "parsePage_loop site i st
           = Some (Inr (n, \<lparr>movies = ms', sleeps = sleeps st @ [5]\<rparr>))"
    by (subst parsePage_loop.simps) simp
  then show ?thesis by blast
qed

lemma parsePage_loop_zeros:
  "\<forall>j<k. listingCount (site (i + j)) = Some 0 \<Longrightarrow>
   \<exists>ms'. parsePage_loop site i st
           = parsePage_loop site (i + k) \<lparr>movies = ms', sleeps = sleeps st @ replicate k 5\<rparr>"
proof (induction k arbitrary: i st)
  case 0
  have "parsePage_loop site i st
         = parsePage_loop site (i + 0) \<lparr>movies = movies st, sleeps = sleeps st @ replicate 0 5\<rparr>"
    by (cases st) simp
  then show ?case by blast
next
  case (Suc k)
  from Suc.prems have "listingCount (site i) = Some 0" by force
  from parsePage_loop_zero [of site i st, OF this] obtain ms1 where
    s1: "parsePage_loop site i st
           = parsePage_loop site (Suc i) \<lparr>movies = ms1, sleeps = sleeps st @ [5]\<rparr>" by blast
  from Suc.prems have "\<forall>j<k. listingCount (site (Suc i + j)) = Some 0" by force
  from Suc.IH [OF this, of "\<lparr>movies = ms1, sleeps = sleeps st @ [5]\<rparr>"] obtain ms' where
    "parsePage_loop site (Suc i) \<lparr>movies = ms1, sleeps = sleeps st @ [5]\<rparr>
       = parsePage_loop site (Suc i + k) \<lparr>movies = ms', sleeps = (sleeps st @ [5]) @ replicate k 5\<rparr>"
    by auto
  with s1 have "parsePage_loop site i st
           = parsePage_loop site (i + Suc k) \<lparr>movies = ms', sleeps = sleeps st @ replicate (Suc k) 5\<rparr>"
    by simp
  then show ?case by blast
qed

lemma parsePage_loop_returns:
  "parsePage_loop site i st = Some y \<Longrightarrow> \<exists>j. listingCount (site j) \<noteq> Some 0"
proof (induction rule: parsePage_loop.raw_induct [rotated, consumes 1])
  case (1 loop site i st y)
  show ?case
  proof (rule ccontr)
    assume "\<not> (\<exists>j. listingCount (site j) \<noteq> Some 0)"
    then have all: "\<forall>j. listingCount (site j) = Some 0" by blast
    then have "listingCount (site i) = Some 0" by blast
    from listingCount_findMovies [OF this, of "movies st"] obtain doc ms' where
      "site i = Document doc" "findMovies doc (movies st) = Inr (0, ms')" by blast
    with "1.hyps" have "loop site (i + 1) \<lparr>movies = ms', sleeps = sleeps st @ [5]\<rparr> = Some y"
      by simp
    from "1.IH" [OF this] all show False by blast
  qed
qed

lemma parsePage_loop_diverges:
  assumes "\<forall>j. listingCount (site j) = Some 0"
  shows "parsePage_loop site i st = None"
proof (cases "parsePage_loop site i st")
  case None
  then show ?thesis .
next
  case (Some y)
  from parsePage_loop_returns [OF this] assms show ?thesis by blast
qed

lemma parseFirstPage_loop_failed:
  "failed (site i) \<Longrightarrow> parseFirstPage_loop site i = Some (Inr (0, 0))"
  by (subst parseFirstPage_loop.simps) (auto simp add: failed_def)

lemma pagingTotal_findPagingHeader:
  assumes "pagingTotal r = Some t"
  shows "\<exists>doc p. r = Document doc \<and> findPagingHeader doc = Inr (t, p)"
  using assms by (auto simp add: pagingTotal_def split: response.splits sum.splits)

lemma parseFirstPage_loop_zero:
  assumes "pagingTotal (site i) = Some 0"
  shows "parseFirstPage_loop site i = parseFirstPage_loop site (Suc i)"
proof -
  from pagingTotal_findPagingHeader [OF assms] obtain doc p where
    "site i = Document doc" "findPagingHeader doc = Inr (0, p)" by blast
  then show ?thesis by (subst parseFirstPage_loop.simps) simp
qed

lemma parseFirstPage_loop_found:
  assumes "site i = Document doc" and "findPagingHeader doc = Inr (t, p)" and "t \<noteq> 0"
  shows "parseFirstPage_loop site i = Some (Inr (t, p))"
  using assms by (subst parseFirstPage_loop.simps) simp

lemma parseFirstPage_loop_zeros:
  "\<forall>j<k. pagingTotal (site (i + j)) = Some 0 \<Longrightarrow>
   parseFirstPage_loop site i = parseFirstPage_loop site (i + k)"
proof (induction k arbitrary: i)
  case 0
  then show ?case by simp
next
  case (Suc k)
  from Suc.prems have "pagingTotal (site i) = Some 0" by force
  from parseFirstPage_loop_zero [of site i, OF this]
  have s1: "parseFirstPage_loop site i = parseFirstPage_loop site (Suc i)" .
  from Suc.prems have "\<forall>j<k. pagingTotal (site (Suc i + j)) = Some 0" by force
  from Suc.IH [OF this] s1 show ?case by simp
qed

lemma parseFirstPage_loop_returns:
  "parseFirstPage_loop site i = Some y \<Longrightarrow> \<exists>j. pagingTotal (site j) \<noteq> Some 0"
proof (induction rule: parseFirstPage_loop.raw_induct [rotated, consumes 1])
  case (1 loop site i y)
  show ?case
  proof (rule ccontr)
    assume "\<not> (\<exists>j. pagingTotal (site j) \<noteq> Some 0)"
    then have all: "\<forall>j. pagingTotal (site j) = Some 0" by blast
    then have "pagingTotal (site i) = Some 0" by blast
    from pagingTotal_findPagingHeader [OF this] obtain doc p where
      "site i = Document doc" "findPagingHeader doc = Inr (0, p)" by blast
    with "1.hyps" have "loop site (i + 1) = Some y" by simp
    from "1.IH" [OF this] all show False by blast
  qed
qed

lemma parseFirstPage_loop_diverges:
  assumes "\<forall>j. pagingTotal (site j) = Some 0"
  shows "parseFirstPage_loop site i = None"
proof (cases "parseFirstPage_loop site i")
  case None
  then show ?thesis .
next
  case (Some y)
  from parseFirstPage_loop_returns [OF this] assms show ?thesis by blast
qed

lemma findMovies_empty_page: "findMovies (pageNode []) ms = Inr (0, ms)"
  by (simp add: pageNode_def listingNode_def attr_def processMovies_def isClassName_def Contains_def)

lemma findPagingHeader_empty_page: "findPagingHeader (pageNode []) = Inr (0, 0)"
  by (simp add: pageNode_def listingNode_def attr_def isClassName_def Contains_def)

lemma findMovies_one_item:
  "findMovies (pageNode [itemNode ''item'' ''/film/535341/'' ''Name'']) ms
   = Inr (1, ms(''535341'' \<mapsto> ''Name''))"
  using extractId_film [of "''535341''"]
  by (simp add: pageNode_def listingNode_def itemNode_def attr_def processMovies_def
      processMovie_def isClassName_def Contains_def)

lemma findPagingHeader_marker_example:
  "findPagingHeader (markerNode markerText) = Inr (237, 50)"
proof -
  have "inspectPaging markerText = Inr (237, 50 - 1 + 1)"
    unfolding markerText_def by (rule inspectPaging_valid) (simp_all add: Atoi_def isDigit_def)
  then show ?thesis
    by (simp add: markerNode_def attr_def isClassName_def Contains_def)
qed

text \<open>
  C1, as the code has it. An attempt that gets a document on which the extractor yields
  zero is tried again, without a bound on the attempts: after \<open>k\<close> such attempts the
  loop is at attempt \<open>k\<close> (\<open>parsePage\<close> has slept 5 seconds after each of them), and
  when every attempt yields zero the loop never returns. An error of the request or of
  the parser is not tried again: the loop ends at that attempt and returns zero to its
  caller.
\<close>

theorem fetch_loops_retry_zero_pages_only:
  "((\<forall>j<k. listingCount (site j) = Some 0) \<and> failed (site k)
      \<longrightarrow> (\<exists>ms'. parsePage site st
                  = Some (Inr (0, \<lparr>movies = ms', sleeps = sleeps st @ replicate k 5\<rparr>))))
   \<and> ((\<forall>j. listingCount (site j) = Some 0) \<longrightarrow> parsePage site st = None)
   \<and> ((\<forall>j<k. pagingTotal (site j) = Some 0) \<and> failed (site k)
      \<longrightarrow> parseFirstPage site = Some (Inr (0, 0)))
   \<and> ((\<forall>j. pagingTotal (site j) = Some 0) \<longrightarrow> parseFirstPage site = None)"
proof (intro conjI impI)
  assume a: "(\<forall>j<k. listingCount (site j) = Some 0) \<and> failed (site k)"
  then have "\<forall>j<k. listingCount (site (0 + j)) = Some 0" by simp
  from parsePage_loop_zeros [OF this, of st] obtain ms' where
    "parsePage_loop site 0 st
       = parsePage_loop site k \<lparr>movies = ms', sleeps = sleeps st @ replicate k 5\<rparr>" by auto
  with a parsePage_loop_failed [of site k]
  have "parsePage site st = Some (Inr (0, \<lparr>movies = ms', sleeps = sleeps st @ replicate k 5\<rparr>))"
    by (simp add: parsePage_def)
  then show "\<exists>ms'. parsePage site st
                  = Some (Inr (0, \<lparr>movies = ms', sleeps = sleeps st @ replicate k 5\<rparr>))" by blast
next
  assume "\<forall>j. listingCount (site j) = Some 0"
  then show "parsePage site st = None" by (simp add: parsePage_def parsePage_loop_diverges)
next
  assume a: "(\<forall>j<k. pagingTotal (site j) = Some 0) \<and> failed (site k)"
  then have "\<forall>j<k. pagingTotal (site (0 + j)) = Some 0" by simp
  from parseFirstPage_loop_zeros [OF this] a parseFirstPage_loop_failed [of site k]
  show "parseFirstPage site = Some (Inr (0, 0))" by (simp add: parseFirstPage_def)
next
  assume "\<forall>j. pagingTotal (site j) = Some 0"
  then show "parseFirstPage site = None"
    by (simp add: parseFirstPage_def parseFirstPage_loop_diverges)
qed

theorem fetch_loops_retry_zero_pages_only_witness:
  "(\<exists>ms'. parsePage siteBreaks emptyHarvest = Some (Inr (0, \<lparr>movies = ms', sleeps = [5, 5]\<rparr>)))
   \<and> parseFirstPage siteBreaks = Some (Inr (0, 0))
   \<and> parsePage siteEmpty emptyHarvest = None
   \<and> parseFirstPage siteEmpty = None"
  using fetch_loops_retry_zero_pages_only [of 2 siteBreaks emptyHarvest]
    fetch_loops_retry_zero_pages_only [of 0 siteEmpty emptyHarvest]
  by (simp add: siteBreaks_def siteEmpty_def listingCount_def pagingTotal_def failed_def
      findMovies_empty_page findPagingHeader_empty_page emptyHarvest_def numeral_2_eq_2)

text \<open>
  The claim of the specification fails where the first request fails: both loops return
  zero to the caller at once, with no sleep and no second attempt.
\<close>

theorem fetch_error_returned_counterexample:
  "parsePage siteDown emptyHarvest = Some (Inr (0, emptyHarvest))
   \<and> parseFirstPage siteDown = Some (Inr (0, 0))"
  by (simp add: parsePage_def parseFirstPage_def parsePage_loop_failed parseFirstPage_loop_failed
      failed_def siteDown_def)

text \<open>
  C4, as the code has it. When the extractor yields zero on the first two attempts and
  a value that is not zero on the third, \<open>parsePage\<close> returns that value after three
  sleeps of 5 seconds, one after every attempt, the third one included;
  \<open>parseFirstPage\<close> returns the total and the page size of the third attempt.
\<close>

theorem fetch_third_attempt:
  "(listingCount (site 0) = Some 0 \<and> listingCount (site 1) = Some 0
      \<and> listingCount (site 2) = Some n \<and> n \<noteq> 0
      \<longrightarrow> (\<exists>ms'. parsePage site st
                  = Some (Inr (n, \<lparr>movies = ms', sleeps = sleeps st @ [5, 5, 5]\<rparr>))))
   \<and> (pagingTotal (site 0) = Some 0 \<and> pagingTotal (site 1) = Some 0
      \<and> site 2 = Document doc \<and> findPagingHeader doc = Inr (t, p) \<and> t \<noteq> 0
      \<longrightarrow> parseFirstPage site = Some (Inr (t, p)))"
proof (intro conjI impI)
  assume a: "listingCount (site 0) = Some 0 \<and> listingCount (site 1) = Some 0
      \<and> listingCount (site 2) = Some n \<and> n \<noteq> 0"
  then have z0: "listingCount (site 0) = Some 0"
    and z1: "listingCount (site (Suc 0)) = Some 0"
    and f: "listingCount (site (Suc (Suc 0))) = Some n" and n: "n \<noteq> 0"
    by (simp_all add: numeral_2_eq_2)
  from parsePage_loop_zero [of site 0 st, OF z0] obtain m1 where
    s0: "parsePage_loop site 0 st
          = parsePage_loop site (Suc 0) \<lparr>movies = m1, sleeps = sleeps st @ [5]\<rparr>" by blast
  from parsePage_loop_zero [of site "Suc 0" "\<lparr>movies = m1, sleeps = sleeps st @ [5]\<rparr>", OF z1]
  obtain m2 where
    s1: "parsePage_loop site (Suc 0) \<lparr>movies = m1, sleeps = sleeps st @ [5]\<rparr>
          = parsePage_loop site (Suc (Suc 0)) \<lparr>movies = m2, sleeps = sleeps st @ [5, 5]\<rparr>"
    by auto
  from parsePage_loop_found
    [of site "Suc (Suc 0)" n "\<lparr>movies = m2, sleeps = sleeps st @ [5, 5]\<rparr>", OF f n]
  obtain ms' where
    s2: "parsePage_loop site (Suc (Suc 0)) \<lparr>movies = m2, sleeps = sleeps st @ [5, 5]\<rparr>
          = Some (Inr (n, \<lparr>movies = ms', sleeps = sleeps st @ [5, 5, 5]\<rparr>))"
    by auto
  from s0 s1 s2
  have "parsePage site st = Some (Inr (n, \<lparr>movies = ms', sleeps = sleeps st @ [5, 5, 5]\<rparr>))"
    by (simp add: parsePage_def)
  then show "\<exists>ms'. parsePage site st
                  = Some (Inr (n, \<lparr>movies = ms', sleeps = sleeps st @ [5, 5, 5]\<rparr>))" by blast
next
  assume a: "pagingTotal (site 0) = Some 0 \<and> pagingTotal (site 1) = Some 0
      \<and> site 2 = Document doc \<and> findPagingHeader doc = Inr (t, p) \<and> t \<noteq> 0"
  then have z0: "pagingTotal (site 0) = Some 0"
    and z1: "pagingTotal (site (Suc 0)) = Some 0"
    and f: "site (Suc (Suc 0)) = Document doc" "findPagingHeader doc = Inr (t, p)" "t \<noteq> 0"
    by (simp_all add: numeral_2_eq_2)
  from parseFirstPage_loop_zero [of site 0, OF z0]
    parseFirstPage_loop_zero [of site "Suc 0", OF z1]
    parseFirstPage_loop_found [of site "Suc (Suc 0)", OF f]
  show "parseFirstPage site = Some (Inr (t, p))" by (simp add: parseFirstPage_def)
qed

theorem fetch_third_attempt_witness:
  "(\<exists>ms'. parsePage siteThird emptyHarvest = Some (Inr (1, \<lparr>movies = ms', sleeps = [5, 5, 5]\<rparr>)))
   \<and> parseFirstPage sitePagingThird = Some (Inr (237, 50))"
  using fetch_third_attempt [of siteThird 1 emptyHarvest]
    fetch_third_attempt [of sitePagingThird _ _
      "markerNode markerText" 237 50]
  by (simp add: siteThird_def sitePagingThird_def listingCount_def pagingTotal_def
      findMovies_empty_page findPagingHeader_empty_page findMovies_one_item
      findPagingHeader_marker_example emptyHarvest_def)

text \<open>
  Two pages with no item, then a page with one: the loop has slept three times when it
  returns, not twice.
\<close>

theorem three_delays_counterexample:
  "parsePage siteThird emptyHarvest
   = Some (Inr (1, \<lparr>movies = noMovies(''535341'' \<mapsto> ''Name''), sleeps = [5, 5, 5]\<rparr>))"
proof -
  have "parsePage_loop siteThird (Suc (Suc 0)) st
        = Some (Inr (1, \<lparr>movies = (movies st)(''535341'' \<mapsto> ''Name''), sleeps = sleeps st @ [5]\<rparr>))"
    for st
    by (subst parsePage_loop.simps) (simp add: siteThird_def findMovies_one_item)
  moreover have "parsePage_loop siteThird (Suc 0) st
        = parsePage_loop siteThird (Suc (Suc 0)) \<lparr>movies = movies st, sleeps = sleeps st @ [5]\<rparr>" for st
    by (subst parsePage_loop.simps) (simp add: siteThird_def findMovies_empty_page)
  moreover have "parsePage_loop siteThird 0 st
        = parsePage_loop siteThird (Suc 0) \<lparr>movies = movies st, sleeps = sleeps st @ [5]\<rparr>" for st
    by (subst parsePage_loop.simps) (simp add: siteThird_def findMovies_empty_page)
  ultimately show ?thesis
    by (simp add: parsePage_def emptyHarvest_def noMovies_def)
qed

section \<open>The replay of a record set\<close>

lemma requestsOf_append: "requestsOf (xs @ ys) = requestsOf xs @ requestsOf ys"
  by (induction xs rule: requestsOf.induct) simp_all

lemma reportsOf_append: "reportsOf (xs @ ys) = reportsOf xs @ reportsOf ys"
  by (induction xs rule: reportsOf.induct) simp_all

lemma setMovieWatched_events:
  "requestsOf (fst (setMovieWatched remote k movieId)) = [movieId]"
  "reportsOf (fst (setMovieWatched remote k movieId)) = []"
  by (simp_all add: setMovieWatched_def split: WatchedReply.splits)

lemma importMovies_loop_good_step:
  assumes "2 \<le> length line" and "Atoi (line ! 0) = Some movieIdInt"
  shows "importMovies_loop remote k (line # data)
         = (fst (setMovieWatched remote k movieIdInt)
             @ [if snd (setMovieWatched remote k movieIdInt) then Printf_SetWatched (line ! 1)
                else Printf_NotSetWatched (line ! 1), Sleep 1]
             @ fst (importMovies_loop remote (Suc k) data),
            snd (importMovies_loop remote (Suc k) data))"
  using assms by (auto simp add: index_def split: prod.splits)

lemma importMovies_loop_bad_step:
  assumes "2 \<le> length bad" and "Atoi (bad ! 0) = None"
  shows "importMovies_loop remote k (bad # post) = ([Println_ConvertError (bad ! 0)], Aborted)"
  using assms by (auto simp add: index_def)

lemma importMovies_loop_append:
  assumes "\<forall>line \<in> set pre. 2 \<le> length line \<and> Atoi (line ! 0) \<noteq> None"
  shows "importMovies_loop remote k (pre @ rest)
         = (fst (importMovies_loop remote k pre) @ fst (importMovies_loop remote (k + length pre) rest),
            snd (importMovies_loop remote (k + length pre) rest))"
  using assms
proof (induction pre arbitrary: k)
  case Nil
  then show ?case by simp
next
  case (Cons line pre)
  then obtain i where i: "2 \<le> length line" "Atoi (line ! 0) = Some i" by auto
  from Cons.prems have "\<forall>line \<in> set pre. 2 \<le> length line \<and> Atoi (line ! 0) \<noteq> None" by simp
  from Cons.IH [OF this, of "Suc k"] show ?case
    by (simp add: importMovies_loop_good_step [OF i] del: importMovies_loop.simps)
qed

lemma importMovies_loop_finished:
  assumes "\<forall>line \<in> set pre. 2 \<le> length line \<and> Atoi (line ! 0) \<noteq> None"
  shows "snd (importMovies_loop remote k pre) = Finished"
  using assms
proof (induction pre arbitrary: k)
  case Nil
  then show ?case by simp
next
  case (Cons line pre)
  then obtain i where i: "2 \<le> length line" "Atoi (line ! 0) = Some i" by auto
  from Cons show ?case
    by (simp add: importMovies_loop_good_step [OF i] del: importMovies_loop.simps)
qed

lemma importMovies_loop_requests:
  assumes "\<forall>line \<in> set pre. 2 \<le> length line \<and> Atoi (line ! 0) \<noteq> None"
  shows "requestsOf (fst (importMovies_loop remote k pre)) = map (\<lambda>line. the (Atoi (line ! 0))) pre"
  using assms
proof (induction pre arbitrary: k)
  case Nil
  then show ?case by simp
next
  case (Cons line pre)
  then obtain i where i: "2 \<le> length line" "Atoi (line ! 0) = Some i" by auto
  from Cons i(2) show ?case
    by (simp add: importMovies_loop_good_step [OF i] requestsOf_append setMovieWatched_events
        del: importMovies_loop.simps)
qed

lemma importMovies_loop_reports:
  assumes "\<forall>line \<in> set pre. 2 \<le> length line \<and> Atoi (line ! 0) \<noteq> None"
  shows "reportsOf (fst (importMovies_loop remote k pre))
         = map (\<lambda>(j, line). if snd (setMovieWatched remote j (the (Atoi (line ! 0))))
                             then Printf_SetWatched (line ! 1) else Printf_NotSetWatched (line ! 1))
             (enumerate k pre)"
  using assms
proof (induction pre arbitrary: k)
  case Nil
  then show ?case by simp
next
  case (Cons line pre)
  then obtain i where i: "2 \<le> length line" "Atoi (line ! 0) = Some i" by auto
  from Cons i(2) show ?case
    by (simp add: importMovies_loop_good_step [OF i] reportsOf_append setMovieWatched_events
        del: importMovies_loop.simps)
qed

text \<open>
  C9. Let every record of \<open>pre\<close> have its two fields and a movie id that \<open>Atoi\<close>
  accepts. Then the replay of \<open>pre\<close> runs to its end, whatever the remote service
  answers: it sends one request per record, in the order of the records, so a call that
  fails is not made again and the run goes on to the next record; and it prints one report
  per record, by the name, that the movie was set watched or that it was not. When a record
  \<open>bad\<close> whose movie id is no integer follows \<open>pre\<close>, the run does what it does on
  \<open>pre\<close>, prints the conversion error and returns: no record behind \<open>bad\<close> is
  processed.
\<close>

theorem replay_aborts_on_bad_id_continues_on_failure:
  assumes good: "\<forall>line \<in> set pre. 2 \<le> length line \<and> Atoi (line ! 0) \<noteq> None"
  shows "snd (importMovies remote pre) = Finished
       \<and> requestsOf (fst (importMovies remote pre)) = map (\<lambda>line. the (Atoi (line ! 0))) pre
       \<and> reportsOf (fst (importMovies remote pre))
           = map (\<lambda>(k, line). if snd (setMovieWatched remote k (the (Atoi (line ! 0))))
                               then Printf_SetWatched (line ! 1) else Printf_NotSetWatched (line ! 1))
               (enumerate 0 pre)
       \<and> (2 \<le> length bad \<and> Atoi (bad ! 0) = None \<longrightarrow>
            importMovies remote (pre @ bad # post)
            = (fst (importMovies remote pre) @ [Println_ConvertError (bad ! 0)], Aborted))"
  unfolding importMovies_def
  using importMovies_loop_finished [OF good] importMovies_loop_requests [OF good]
    importMovies_loop_reports [OF good] importMovies_loop_append [OF good, of remote 0 "bad # post"]
  by (simp add: importMovies_loop_bad_step del: importMovies_loop.simps)

theorem replay_aborts_on_bad_id_continues_on_failure_witness:
  "importMovies remoteSecondFails
     [[''1'', ''A''], [''2'', ''B''], [''3'', ''C''], [''x'', ''D''], [''4'', ''E'']]
   = ([Request 1, Printf_SetWatched ''A'', Sleep 1,
       Request 2, Printf_NotSetWatched ''B'', Sleep 1,
       Request 3, Printf_SetWatched ''C'', Sleep 1,
       Println_ConvertError ''x''], Aborted)"
  using replay_aborts_on_bad_id_continues_on_failure
    [of "[[''1'', ''A''], [''2'', ''B''], [''3'', ''C'']]" remoteSecondFails
        "[''x'', ''D'']" "[[''4'', ''E'']]"]
  by (simp add: importMovies_def index_def Atoi_def isDigit_def setMovieWatched_def
      remoteSecondFails_def)

section \<open>The record file written and read back\<close>

lemma firstLine_Cons: "c \<noteq> LF \<Longrightarrow> firstLine (c # s) = c # firstLine s"
  by (simp add: firstLine_def)

lemma afterLine_Cons: "c \<noteq> LF \<Longrightarrow> afterLine (c # s) = afterLine s"
  by (simp add: afterLine_def)

lemma firstLine_LF: "firstLine (LF # s) = [LF]"
  by (simp add: firstLine_def)

lemma afterLine_LF: "afterLine (LF # s) = s"
  by (simp add: afterLine_def)

lemma firstLine_append: "LF \<notin> set a \<Longrightarrow> firstLine (a @ s) = a @ firstLine s"
  by (induction a) (auto simp add: firstLine_def)

lemma afterLine_append: "LF \<notin> set a \<Longrightarrow> afterLine (a @ s) = afterLine s"
  by (induction a) (auto simp add: afterLine_def)

lemma noCRLF_tl: "noCRLF (c # s) \<Longrightarrow> noCRLF s"
  by (cases s) simp_all

lemma noCRLF_append_CRLF: "\<not> noCRLF (a @ CR # LF # b)"
  by (induction a rule: noCRLF.induct) simp_all

lemma readLine_noCRLF:
  assumes "LF \<in> set s" and "noCRLF s"
  shows "readLine s = (firstLine s, afterLine s, False)"
proof (cases s rule: readLine_cases)
  case eof
  with assms show ?thesis by simp
next
  case last_line
  from last_line(1) assms(1) show ?thesis by auto
next
  case (line raw rest)
  have fl: "firstLine s = raw @ [LF]" and al: "afterLine s = rest"
    unfolding line(1) using line(2) by (simp_all add: firstLine_append afterLine_append firstLine_LF afterLine_LF)
  have "\<not> (raw \<noteq> [] \<and> last raw = CR)"
  proof
    assume "raw \<noteq> [] \<and> last raw = CR"
    then have "raw = butlast raw @ [CR]" by (metis append_butlast_last_id)
    then have "s = butlast raw @ CR # LF # rest" using line(1) by (metis append.assoc append_Cons append_Nil)
    with assms(2) noCRLF_append_CRLF show False by metis
  qed
  with line(3) fl al show ?thesis by simp
qed

lemma Index_single_Cons: "c \<noteq> d \<Longrightarrow> Index (c # l) [d] = map_option Suc (Index l [d])"
  by simp

lemma parseQuoted_char:
  assumes "c \<noteq> DQ" and "l \<noteq> []"
  shows "parseQuoted (c # l) inp buf dst = parseQuoted l inp (buf @ [c]) dst"
proof -
  note unfold = parseQuoted.simps [of "c # l" inp buf dst] parseQuoted.simps [of l inp "buf @ [c]" dst]
  show ?thesis
  proof (cases "Index l [DQ]")
    case None
    with assms have "Index (c # l) [DQ] = None" by simp
    with None assms(2) show ?thesis unfolding unfold by simp
  next
    case (Some i)
    with assms have "Index (c # l) [DQ] = Some (Suc i)" by simp
    with Some show ?thesis unfolding unfold by (simp split: list.splits)
  qed
qed

lemma firstLine_nonempty: "firstLine s \<noteq> []"
  by (simp add: firstLine_def)

lemma parseQuotedAt_char:
  "c \<noteq> DQ \<Longrightarrow> c \<noteq> LF \<Longrightarrow> parseQuotedAt (c # s) buf dst = parseQuotedAt s (buf @ [c]) dst"
  by (simp add: parseQuotedAt_def firstLine_Cons afterLine_Cons parseQuoted_char firstLine_nonempty)

lemma parseQuotedAt_LF:
  assumes "LF \<in> set s" and "noCRLF s"
  shows "parseQuotedAt (LF # s) buf dst = parseQuotedAt s (buf @ [LF]) dst"
  unfolding parseQuotedAt_def firstLine_LF afterLine_LF
  by (subst parseQuoted.simps) (simp add: readLine_noCRLF [OF assms])

lemma parseQuotedAt_DQ_DQ:
  "parseQuotedAt (DQ # DQ # s) buf dst = parseQuotedAt s (buf @ [DQ]) dst"
  unfolding parseQuotedAt_def
  by (subst parseQuoted.simps) (simp add: firstLine_Cons afterLine_Cons)

lemma parseQuotedAt_DQ_Comma:
  "parseQuotedAt (DQ # Comma # s) buf dst = parseFieldAt s (dst @ [buf])"
  unfolding parseQuotedAt_def parseFieldAt_def
  by (subst parseQuoted.simps) (simp add: firstLine_Cons afterLine_Cons)

lemma parseQuotedAt_DQ_LF:
  "parseQuotedAt (DQ # LF # s) buf dst = Inr (dst @ [buf], s)"
  unfolding parseQuotedAt_def
  by (subst parseQuoted.simps) (simp add: firstLine_Cons afterLine_Cons firstLine_LF afterLine_LF lengthNL_def)

lemma parseFieldAt_DQ:
  "parseFieldAt (DQ # s) dst = parseQuotedAt s [] dst"
  unfolding parseQuotedAt_def parseFieldAt_def
  by (subst parseField.simps) (simp add: firstLine_Cons afterLine_Cons)

lemma parseFieldAt_plain_Comma:
  assumes "DQ \<notin> set f" and "Comma \<notin> set f" and "LF \<notin> set f"
  shows "parseFieldAt (f @ Comma # s) dst = parseFieldAt s (dst @ [f])"
proof -
  have fl: "firstLine (f @ Comma # s) = f @ [Comma] @ firstLine s"
    and al: "afterLine (f @ Comma # s) = afterLine s"
    using assms(3) by (simp_all add: firstLine_append afterLine_append firstLine_Cons afterLine_Cons)
  have idx: "Index (f @ [Comma] @ firstLine s) [Comma] = Some (length f)"
    using assms(2) by (intro Index_fresh) simp_all
  have hd: "f @ [Comma] @ firstLine s = [] \<or> hd (f @ [Comma] @ firstLine s) \<noteq> DQ"
    using assms(1) by (cases f) auto
  show ?thesis
    unfolding parseFieldAt_def fl al
    using hd idx assms(1) by (subst parseField.simps) simp
qed

lemma parseFieldAt_plain_LF:
  assumes "DQ \<notin> set f" and "Comma \<notin> set f" and "LF \<notin> set f"
  shows "parseFieldAt (f @ LF # s) dst = Inr (dst @ [f], s)"
proof -
  have fl: "firstLine (f @ LF # s) = f @ [LF]"
    and al: "afterLine (f @ LF # s) = s"
    using assms(3) by (simp_all add: firstLine_append afterLine_append firstLine_LF afterLine_LF)
  have idx: "Index (f @ [LF]) [Comma] = None"
    using assms(2) by (intro Index_none) simp_all
  have hd: "f @ [LF] = [] \<or> hd (f @ [LF]) \<noteq> DQ"
    using assms(1) by (cases f) auto
  show ?thesis
    unfolding parseFieldAt_def fl al
    using hd idx assms(1) by (subst parseField.simps) (simp add: lengthNL_def)
qed

lemma parseQuotedAt_content:
  assumes "noCRLF (writeQuoted f @ DQ # t)" and "LF \<in> set t"
  shows "parseQuotedAt (writeQuoted f @ DQ # t) buf dst = parseQuotedAt (DQ # t) (buf @ f) dst"
  using assms
proof (induction f arbitrary: buf)
  case Nil
  then show ?case by simp
next
  case (Cons c f)
  show ?case
  proof (cases "c = DQ")
    case True
    with Cons.prems have "noCRLF (writeQuoted f @ DQ # t)" by (auto dest: noCRLF_tl)
    from Cons.IH [OF this Cons.prems(2), of "buf @ [DQ]"] True show ?thesis
      by (simp add: parseQuotedAt_DQ_DQ)
  next
    case False
    with Cons.prems have n: "noCRLF (writeQuoted f @ DQ # t)" by (auto dest: noCRLF_tl)
    show ?thesis
    proof (cases "c = LF")
      case True
      from Cons.prems(2) have "LF \<in> set (writeQuoted f @ DQ # t)" by simp
      from parseQuotedAt_LF [OF this n] Cons.IH [OF n Cons.prems(2), of "buf @ [LF]"] True False
      show ?thesis by simp
    next
      case notLF: False
      from parseQuotedAt_char [OF False notLF] Cons.IH [OF n Cons.prems(2), of "buf @ [c]"] False
      show ?thesis by simp
    qed
  qed
qed

lemma noCRLF_append:
  "noCRLF (a @ b) =
     (noCRLF a \<and> noCRLF b \<and> \<not> (a \<noteq> [] \<and> last a = CR \<and> b \<noteq> [] \<and> hd b = LF))"
proof (induction a rule: noCRLF.induct)
  case 1
  then show ?case by simp
next
  case (2 c)
  then show ?case by (cases b) auto
next
  case (3 c d s)
  then show ?case by auto
qed

lemma hd_writeQuoted: "f \<noteq> [] \<Longrightarrow> hd (writeQuoted f) = hd f"
  by (cases f) auto

lemma writeQuoted_Nil_iff: "(writeQuoted f = []) = (f = [])"
  by (cases f) auto

lemma noCRLF_writeQuoted: "noCRLF f \<Longrightarrow> noCRLF (writeQuoted f)"
proof (induction f rule: noCRLF.induct)
  case 1
  then show ?case by simp
next
  case (2 c)
  then show ?case by simp
next
  case (3 c d s)
  then have n: "noCRLF (writeQuoted (d # s))" and ne: "\<not> (c = CR \<and> d = LF)" by simp_all
  have h: "hd (writeQuoted (d # s)) = d" by (simp add: hd_writeQuoted)
  have "writeQuoted (c # d # s) = (if c = DQ then [DQ, DQ] else [c]) @ writeQuoted (d # s)"
    by simp
  moreover have "noCRLF ((if c = DQ then [DQ, DQ] else [c]) @ writeQuoted (d # s))"
    unfolding noCRLF_append using n ne h by auto
  ultimately show ?case by simp
qed

lemma plain_field_chars:
  assumes "\<not> fieldNeedsQuotes isSpaceFirst f"
  shows "LF \<notin> set f" "CR \<notin> set f" "DQ \<notin> set f" "Comma \<notin> set f"
  using assms by (auto simp add: fieldNeedsQuotes_def list_ex_iff split: if_splits)

lemma noCRLF_plain: "CR \<notin> set f \<Longrightarrow> noCRLF f"
  by (induction f rule: noCRLF.induct) auto

lemma writeField_props:
  assumes "noCRLF f"
  shows "noCRLF (writeField isSpaceFirst f)"
    and "writeField isSpaceFirst f \<noteq> [] \<Longrightarrow> last (writeField isSpaceFirst f) \<noteq> CR"
    and "writeField isSpaceFirst f \<noteq> [] \<Longrightarrow> hd (writeField isSpaceFirst f) \<noteq> LF"
proof -
  show "noCRLF (writeField isSpaceFirst f)"
  proof (cases "fieldNeedsQuotes isSpaceFirst f")
    case True
    have "noCRLF ([DQ] @ (writeQuoted f @ [DQ]))"
      unfolding noCRLF_append using noCRLF_writeQuoted [OF assms] by simp
    with True show ?thesis by (simp add: writeField_def)
  next
    case False
    with assms show ?thesis by (simp add: writeField_def)
  qed
  show "writeField isSpaceFirst f \<noteq> [] \<Longrightarrow> last (writeField isSpaceFirst f) \<noteq> CR"
    using plain_field_chars(2) [of isSpaceFirst f]
    by (cases "fieldNeedsQuotes isSpaceFirst f") (auto simp add: writeField_def dest: last_in_set)
  show "writeField isSpaceFirst f \<noteq> [] \<Longrightarrow> hd (writeField isSpaceFirst f) \<noteq> LF"
    using plain_field_chars(1) [of isSpaceFirst f]
    by (cases "fieldNeedsQuotes isSpaceFirst f") (auto simp add: writeField_def dest: hd_in_set)
qed

lemma parseFieldAt_field_Comma:
  assumes "noCRLF (writeField isSpaceFirst f @ Comma # s)" and "LF \<in> set s"
  shows "parseFieldAt (writeField isSpaceFirst f @ Comma # s) dst = parseFieldAt s (dst @ [f])"
proof (cases "fieldNeedsQuotes isSpaceFirst f")
  case True
  then have w: "writeField isSpaceFirst f @ Comma # s = DQ # (writeQuoted f @ DQ # Comma # s)"
    by (simp add: writeField_def)
  from assms(1) have n: "noCRLF (writeQuoted f @ DQ # Comma # s)"
    unfolding w by (rule noCRLF_tl)
  from assms(2) have l: "LF \<in> set (Comma # s)" by simp
  show ?thesis
    unfolding w parseFieldAt_DQ parseQuotedAt_content [OF n l] parseQuotedAt_DQ_Comma by simp
next
  case False
  from plain_field_chars [OF False] False show ?thesis
    by (simp add: writeField_def parseFieldAt_plain_Comma)
qed

lemma parseFieldAt_field_LF:
  assumes "noCRLF (writeField isSpaceFirst f @ LF # s)"
  shows "parseFieldAt (writeField isSpaceFirst f @ LF # s) dst = Inr (dst @ [f], s)"
proof (cases "fieldNeedsQuotes isSpaceFirst f")
  case True
  then have w: "writeField isSpaceFirst f @ LF # s = DQ # (writeQuoted f @ DQ # LF # s)"
    by (simp add: writeField_def)
  from assms(1) have n: "noCRLF (writeQuoted f @ DQ # LF # s)"
    unfolding w by (rule noCRLF_tl)
  have l: "LF \<in> set (LF # s)" by simp
  show ?thesis
    unfolding w parseFieldAt_DQ parseQuotedAt_content [OF n l] parseQuotedAt_DQ_LF by simp
next
  case False
  from plain_field_chars [OF False] False show ?thesis
    by (simp add: writeField_def parseFieldAt_plain_LF)
qed

lemma Write_pair:
  "Write isSpaceFirst [k, v]
   = writeField isSpaceFirst k @ Comma # writeField isSpaceFirst v @ [LF]"
  by (simp add: Write_def)

lemma Write_pair_props:
  assumes k: "noCRLF k" and v: "noCRLF v" and s: "noCRLF s" "s = [] \<or> hd s \<noteq> LF"
  shows "noCRLF (Write isSpaceFirst [k, v] @ s)"
    and "noCRLF (writeField isSpaceFirst v @ LF # s)"
    and "hd (Write isSpaceFirst [k, v] @ s) \<noteq> LF"
proof -
  have a: "noCRLF (LF # s)" using s by (cases s) auto
  show b: "noCRLF (writeField isSpaceFirst v @ LF # s)"
    unfolding noCRLF_append using writeField_props(1,2) [OF v] a by auto
  then have c: "noCRLF (Comma # writeField isSpaceFirst v @ LF # s)"
    by (cases "writeField isSpaceFirst v @ LF # s") auto
  have "noCRLF (writeField isSpaceFirst k @ Comma # writeField isSpaceFirst v @ LF # s)"
    unfolding noCRLF_append using writeField_props(1) [OF k] c by auto
  then show "noCRLF (Write isSpaceFirst [k, v] @ s)" by (simp add: Write_pair)
  show "hd (Write isSpaceFirst [k, v] @ s) \<noteq> LF"
    using writeField_props(3) [OF k, of isSpaceFirst]
    by (cases "writeField isSpaceFirst k") (auto simp add: Write_pair)
qed

lemma readRecord_Write_pair:
  assumes k: "noCRLF k" and v: "noCRLF v" and s: "noCRLF s" "s = [] \<or> hd s \<noteq> LF"
  shows "readRecord (Write isSpaceFirst [k, v] @ s) = Some (Inr ([k, v], s))"
proof -
  let ?F = "Write isSpaceFirst [k, v] @ s"
  note props = Write_pair_props [OF k v s, of isSpaceFirst]
  have F: "?F = writeField isSpaceFirst k @ Comma # (writeField isSpaceFirst v @ LF # s)"
    by (simp add: Write_pair)
  have lf: "LF \<in> set ?F" by (simp add: Write_pair)
  have rl: "readLine ?F = (firstLine ?F, afterLine ?F, False)"
    using lf props(1) by (rule readLine_noCRLF)
  have "?F \<noteq> []" by (simp add: Write_pair)
  with props(3) have "takeWhile (\<lambda>c. c \<noteq> LF) ?F \<noteq> []" by (cases ?F) auto
  then have nonempty: "length (firstLine ?F) \<noteq> lengthNL (firstLine ?F)"
    by (simp add: firstLine_def lengthNL_def)
  have n1: "noCRLF (writeField isSpaceFirst k @ Comma # (writeField isSpaceFirst v @ LF # s))"
    using props(1) unfolding F .
  have l1: "LF \<in> set (writeField isSpaceFirst v @ LF # s)" by simp
  have "parseFieldAt ?F [] = Inr ([k, v], s)"
    unfolding F parseFieldAt_field_Comma [OF n1 l1] parseFieldAt_field_LF [OF props(2)] by simp
  then have "parseField (firstLine ?F) (afterLine ?F) [] = Inr ([k, v], s)"
    by (simp add: parseFieldAt_def)
  with rl nonempty show ?thesis
    by (subst readRecord.simps) simp
qed

lemma fileOf_props:
  assumes "\<forall>(k, v) \<in> set recs. noCRLF k \<and> noCRLF v"
  shows "noCRLF (fileOf isSpaceFirst recs)
       \<and> (fileOf isSpaceFirst recs = [] \<or> hd (fileOf isSpaceFirst recs) \<noteq> LF)"
  using assms
proof (induction recs)
  case Nil
  then show ?case by (simp add: fileOf_def)
next
  case (Cons r recs)
  obtain k v where r: "r = (k, v)" by (cases r)
  from Cons.prems r have kv: "noCRLF k" "noCRLF v" by simp_all
  from Cons have s: "noCRLF (fileOf isSpaceFirst recs)"
    "fileOf isSpaceFirst recs = [] \<or> hd (fileOf isSpaceFirst recs) \<noteq> LF" by simp_all
  have f: "fileOf isSpaceFirst (r # recs) = Write isSpaceFirst [k, v] @ fileOf isSpaceFirst recs"
    by (simp add: fileOf_def r)
  from Write_pair_props(1,3) [OF kv s, of isSpaceFirst] show ?case unfolding f by simp
qed

lemma ReadAll_loop_fileOf:
  assumes "\<forall>(k, v) \<in> set recs. noCRLF k \<and> noCRLF v" and "n = 0 \<or> n = 2"
  shows "ReadAll_loop n acc (fileOf isSpaceFirst recs) = Inr (acc @ map (\<lambda>(k, v). [k, v]) recs)"
  using assms
proof (induction recs arbitrary: n acc)
  case Nil
  have "readRecord [] = None" by (subst readRecord.simps) (simp add: readLine_def)
  then show ?case by (subst ReadAll_loop.simps) (simp add: fileOf_def)
next
  case (Cons r recs)
  obtain k v where r: "r = (k, v)" by (cases r)
  from Cons.prems r have kv: "noCRLF k" "noCRLF v"
    and rest: "\<forall>(k, v) \<in> set recs. noCRLF k \<and> noCRLF v" by simp_all
  from fileOf_props [OF rest, of isSpaceFirst]
  have s: "noCRLF (fileOf isSpaceFirst recs)"
    "fileOf isSpaceFirst recs = [] \<or> hd (fileOf isSpaceFirst recs) \<noteq> LF" by simp_all
  have f: "fileOf isSpaceFirst (r # recs) = Write isSpaceFirst [k, v] @ fileOf isSpaceFirst recs"
    by (simp add: fileOf_def r)
  have rr: "readRecord (fileOf isSpaceFirst (r # recs)) = Some (Inr ([k, v], fileOf isSpaceFirst recs))"
    unfolding f by (rule readRecord_Write_pair [OF kv s])
  have "ReadAll_loop n acc (fileOf isSpaceFirst (r # recs))
        = ReadAll_loop 2 (acc @ [[k, v]]) (fileOf isSpaceFirst recs)"
    using rr Cons.prems(2) by (subst ReadAll_loop.simps) (auto simp add: numeral_2_eq_2)
  also have "\<dots> = Inr ((acc @ [[k, v]]) @ map (\<lambda>(k, v). [k, v]) recs)"
    by (rule Cons.IH [OF rest]) simp
  finally show ?case by (simp add: r)
qed

lemma dumpFile_fileOf:
  "dumpFile True isSpaceFirst keys records
   = Some (fileOf isSpaceFirst (map (\<lambda>movieId. (movieId, the (records movieId))) keys))"
  by (simp add: dumpFile_def fileOf_def comp_def)

text \<open>
  C8, as the code has it. Let \<open>dumpFile\<close> create its file and visit the keys of the store
  in the order \<open>keys\<close> (each key once), and let no id and no name of the store hold a
  carriage return immediately before a line feed. Then \<open>readMoviesCsv\<close> on the file
  written returns, without an error, one line \<open>[id, name]\<close> per record of the store in the
  order written: the pairs of the lines are exactly the pairs of the store, and there are
  as many lines as the store has records.
\<close>

theorem csv_round_trip:
  assumes "distinct keys" and "set keys = dom records"
    and "\<forall>movieId \<in> dom records. noCRLF movieId \<and> noCRLF (the (records movieId))"
  shows "readMoviesCsv (dumpFile True isSpaceFirst keys records)
           = Inr (map (\<lambda>movieId. [movieId, the (records movieId)]) keys)
       \<and> (\<lambda>line. (line ! 0, line ! 1)) ` set (map (\<lambda>movieId. [movieId, the (records movieId)]) keys)
           = {(movieId, movieName). records movieId = Some movieName}
       \<and> length (map (\<lambda>movieId. [movieId, the (records movieId)]) keys) = card (dom records)"
proof (intro conjI)
  let ?recs = "map (\<lambda>movieId. (movieId, the (records movieId))) keys"
  from assms(2,3) have "\<forall>(k, v) \<in> set ?recs. noCRLF k \<and> noCRLF v" by auto
  from ReadAll_loop_fileOf [where n = 0 and acc = "[]" and isSpaceFirst = isSpaceFirst, OF this]
  have "ReadAll (fileOf isSpaceFirst ?recs) = Inr (map (\<lambda>(k, v). [k, v]) ?recs)"
    by (simp add: ReadAll_def)
  then show "readMoviesCsv (dumpFile True isSpaceFirst keys records)
           = Inr (map (\<lambda>movieId. [movieId, the (records movieId)]) keys)"
    by (simp add: readMoviesCsv_def dumpFile_fileOf comp_def)
next
  from assms(2)
  show "(\<lambda>line. (line ! 0, line ! 1)) ` set (map (\<lambda>movieId. [movieId, the (records movieId)]) keys)
           = {(movieId, movieName). records movieId = Some movieName}"
    by (auto simp add: image_iff dom_def)
next
  from assms(1,2)
  show "length (map (\<lambda>movieId. [movieId, the (records movieId)]) keys) = card (dom records)"
    by (simp add: distinct_card [symmetric])
qed

theorem csv_round_trip_witness:
  "readMoviesCsv (dumpFile True asciiSpaceFirst [''2'', ''1''] storeQuoted)
   = Inr [[''2'', '' x''], [''1'', [CHR ''a'', DQ, Comma, LF, LF, CR, CHR ''b'']]]"
  using csv_round_trip [of "[''2'', ''1'']" storeQuoted asciiSpaceFirst]
  by (simp add: storeQuoted_def)

text \<open>
  Without the condition the claim fails: a name with a carriage return immediately before
  a line feed is written as it is, between quotes, and the reader drops the carriage
  return, so the pair read back is not the pair of the store.
\<close>

theorem csv_crlf_counterexample:
  "readMoviesCsv (dumpFile True asciiSpaceFirst [''1''] storeCRLF)
   = Inr [[''1'', [CHR ''a'', LF, CHR ''b'']]]
   \<and> storeCRLF ''1'' = Some [CHR ''a'', CR, LF, CHR ''b'']"
proof -
  have d: "dumpFile True asciiSpaceFirst [''1''] storeCRLF
        = Some [CHR ''1'', Comma, DQ, CHR ''a'', CR, LF, CHR ''b'', DQ, LF]"
    by (simp add: dumpFile_def storeCRLF_def Write_def writeField_def fieldNeedsQuotes_def
        asciiSpaceFirst_def)
  have l1: "readLine [CHR ''1'', Comma, DQ, CHR ''a'', CR, LF, CHR ''b'', DQ, LF]
        = ([CHR ''1'', Comma, DQ, CHR ''a'', LF], [CHR ''b'', DQ, LF], False)"
    by (simp add: readLine_def)
  have l2: "readLine [CHR ''b'', DQ, LF] = ([CHR ''b'', DQ, LF], [], False)"
    by (simp add: readLine_def)
  have l3: "readLine [] = ([], [], True)"
    by (simp add: readLine_def)
  have q2: "parseQuoted [CHR ''b'', DQ, LF] [] [CHR ''a'', LF] [''1'']
        = Inr ([''1'', [CHR ''a'', LF, CHR ''b'']], [])"
    by (subst parseQuoted.simps) (simp add: lengthNL_def)
  have q1: "parseQuoted [CHR ''a'', LF] [CHR ''b'', DQ, LF] [] [''1'']
        = Inr ([''1'', [CHR ''a'', LF, CHR ''b'']], [])"
    by (subst parseQuoted.simps) (simp add: l2 q2)
  have f2: "parseField [DQ, CHR ''a'', LF] [CHR ''b'', DQ, LF] [''1'']
        = Inr ([''1'', [CHR ''a'', LF, CHR ''b'']], [])"
    by (subst parseField.simps) (simp add: q1)
  have f1: "parseField [CHR ''1'', Comma, DQ, CHR ''a'', LF] [CHR ''b'', DQ, LF] []
        = Inr ([''1'', [CHR ''a'', LF, CHR ''b'']], [])"
    by (subst parseField.simps) (simp add: f2)
  have r1: "readRecord [CHR ''1'', Comma, DQ, CHR ''a'', CR, LF, CHR ''b'', DQ, LF]
        = Some (Inr ([''1'', [CHR ''a'', LF, CHR ''b'']], []))"
    by (subst readRecord.simps) (simp add: l1 f1 lengthNL_def)
  have r2: "readRecord [] = None"
    by (subst readRecord.simps) (simp add: l3)
  have a2: "ReadAll_loop (Suc (Suc 0)) [[''1'', [CHR ''a'', LF, CHR ''b'']]] []
        = Inr [[''1'', [CHR ''a'', LF, CHR ''b'']]]"
    by (subst ReadAll_loop.simps) (simp add: r2)
  have "ReadAll [CHR ''1'', Comma, DQ, CHR ''a'', CR, LF, CHR ''b'', DQ, LF]
        = Inr [[''1'', [CHR ''a'', LF, CHR ''b'']]]"
    unfolding ReadAll_def by (subst ReadAll_loop.simps) (simp add: r1 a2)
  with d show ?thesis by (simp add: readMoviesCsv_def storeCRLF_def)
qed

end
